theory Spec2Isabelle
  imports Main
begin

unbundle bit_operations_syntax

section \<open>Sequence engine\<close>

text \<open>
  Python integers are unbounded, so they are HOL integers. Python's floor division and
  modulo by the positive constant 2 agree with \<open>div\<close> and \<open>mod\<close> on \<open>int\<close>.

  \<^verbatim>\<open>def collatz(n): return n // 2 if n % 2 == 0 else 3 * n + 1\<close>
\<close>

definition collatz :: "int \<Rightarrow> int" where
  "collatz n = (if n mod 2 = 0 then n div 2 else 3 * n + 1)"

text \<open>
  The inner loop of \<open>collatz_t3\<close>: \<^verbatim>\<open>while n % 2 == 0: n //= 2\<close>. Taken alone it does
  not return for \<open>n = 0\<close>, so it is a partial function: \<open>None\<close> is "does not return".
\<close>

partial_function (option) collatz_t3_loop :: "int \<Rightarrow> int option" where
  "collatz_t3_loop n = (if n mod 2 = 0 then collatz_t3_loop (n div 2) else Some n)"

declare collatz_t3_loop.simps [code]

text \<open>
  \<^verbatim>\<open>
  def collatz_t3(n):
      if n <= 1: return 1
      if n % 2 == 1: n = 3 * n + 1
      while n % 2 == 0: n //= 2
      return n
  \<close>
\<close>

definition collatz_t3 :: "int \<Rightarrow> int option" where
  "collatz_t3 n =
     (if n \<le> 1 then Some 1
      else collatz_t3_loop (if n mod 2 = 1 then 3 * n + 1 else n))"

text \<open>\<^verbatim>\<open>step = collatz_t3 if accelerated else collatz\<close>, both as possibly non-returning steps.\<close>

definition step_of :: "bool \<Rightarrow> int \<Rightarrow> int option" where
  "step_of accelerated = (if accelerated then collatz_t3 else (\<lambda>n. Some (collatz n)))"

text \<open>
  The loop of \<open>trajectory\<close>, on the list \<open>path\<close> (never empty there):
  \<^verbatim>\<open>
  while path[-1] != 1:
      path.append(step(path[-1]))
      if len(path) > 50000: break
  \<close>
  The length test comes after the append, so the loop terminates: the measure is
  \<open>50001 - len(path)\<close>.
\<close>

function traj_loop :: "(int \<Rightarrow> int option) \<Rightarrow> int list \<Rightarrow> int list option" where
  "traj_loop step path =
     (if last path \<noteq> 1 then
        (case step (last path) of
           None \<Rightarrow> None
         | Some v \<Rightarrow>
             (let path' = path @ [v] in
              if length path' > 50000 then Some path' else traj_loop step path'))
      else Some path)"
  by pat_completeness auto
termination
  by (relation "measure (\<lambda>(step, path). 50001 - length path)") auto

declare traj_loop.simps [simp del]

text \<open>
  \<^verbatim>\<open>
  def trajectory(n, accelerated=False):
      step = collatz_t3 if accelerated else collatz
      path = [n]
      if n <= 1: return path
      while ...
      return path
  \<close>
\<close>

definition trajectory :: "int \<Rightarrow> bool \<Rightarrow> int list option" where
  "trajectory n accelerated =
     (let step = step_of accelerated; path = [n] in
      if n \<le> 1 then Some path else traj_loop step path)"

section \<open>Bit-grid encoder\<close>

text \<open>
  The Python exceptions the modelled code can raise: \<open>max\<close> of an empty sequence
  (\<open>ValueError\<close>), an array index out of range (\<open>IndexError\<close>), an integer division by
  zero (\<open>ZeroDivisionError\<close>).
\<close>

datatype error = ValueError | IndexError | ZeroDivisionError

text \<open>
  \<^verbatim>\<open>EMPTY = -1\<close>. The grid is a two-dimensional \<open>numpy\<close> array of \<open>int8\<close>; the code stores
  only \<open>-1\<close>, \<open>0\<close> and \<open>1\<close> in it, so no value wraps. It is modelled as the list of its
  rows.
\<close>

definition EMPTY :: int where
  "EMPTY = - 1"

type_synonym grid = "int list list"

text \<open>
  Python's built-in \<open>int.bit_length\<close>: the number of bits of the absolute value, 0 for 0.
\<close>

function bit_length :: "int \<Rightarrow> nat" where
  "bit_length v = (if v = 0 then 0 else Suc (bit_length (\<bar>v\<bar> div 2)))"
  by pat_completeness auto
termination
  by (relation "measure (\<lambda>v. nat \<bar>v\<bar>)") auto

declare bit_length.simps [simp del]

text \<open>
  The bit extraction of one value, least significant bit first:
  \<^verbatim>\<open>
  while v > 0:
      bits.append(v & 1)
      v >>= 1
  \<close>
\<close>

function bits_loop :: "int \<Rightarrow> int list \<Rightarrow> int list" where
  "bits_loop v bits = (if v > 0 then bits_loop (drop_bit 1 v) (bits @ [v AND 1]) else bits)"
  by pat_completeness auto
termination
  by (relation "measure (\<lambda>(v, bits). nat v)") (auto simp: drop_bit_eq_div)

declare bits_loop.simps [simp del]

text \<open>\<^verbatim>\<open>grid[i, j] = b\<close>: an index outside the array raises \<open>IndexError\<close>.\<close>

definition grid_set :: "grid \<Rightarrow> nat \<Rightarrow> nat \<Rightarrow> int \<Rightarrow> error + grid" where
  "grid_set g i j b =
     (if i < length g \<and> j < length (g ! i) then Inr (g[i := (g ! i)[j := b]])
      else Inl IndexError)"

text \<open>\<^verbatim>\<open>for j, b in enumerate(bits): grid[i, j] = b\<close>, with \<open>j\<close> the running index.\<close>

fun write_bits :: "grid \<Rightarrow> nat \<Rightarrow> nat \<Rightarrow> int list \<Rightarrow> error + grid" where
  "write_bits g i j [] = Inr g"
| "write_bits g i j (b # bs) =
     (case grid_set g i j b of
        Inl e \<Rightarrow> Inl e
      | Inr g' \<Rightarrow> write_bits g' i (Suc j) bs)"

text \<open>
  \<^verbatim>\<open>for i, val in enumerate(traj): ...; bits.reverse(); ...\<close>, with \<open>i\<close> the running index.
\<close>

fun fill_rows :: "grid \<Rightarrow> nat \<Rightarrow> int list \<Rightarrow> error + grid" where
  "fill_rows g i [] = Inr g"
| "fill_rows g i (val # vals) =
     (let bits = rev (bits_loop val []) in
      case write_bits g i 0 bits of
        Inl e \<Rightarrow> Inl e
      | Inr g' \<Rightarrow> fill_rows g' (Suc i) vals)"

text \<open>
  \<^verbatim>\<open>
  def binary_grid(traj):
      max_bits = max(v.bit_length() for v in traj if v > 0)
      grid = np.full((len(traj), max_bits), EMPTY, dtype=np.int8)
      for i, val in enumerate(traj): ...
      return grid
  \<close>
  \<open>max\<close> raises \<open>ValueError\<close> when no value of the trajectory is positive.
\<close>

definition binary_grid :: "int list \<Rightarrow> error + grid" where
  "binary_grid traj =
     (case map bit_length (filter (\<lambda>v. v > 0) traj) of
        [] \<Rightarrow> Inl ValueError
      | b # bs \<Rightarrow>
          (let max_bits = fold max bs b;
               grid = replicate (length traj) (replicate max_bits EMPTY)
           in fill_rows grid 0 traj))"

section \<open>Frame compositor\<close>

text \<open>Colours and the palettes of the module.\<close>

type_synonym rgb = "int \<times> int \<times> int"

definition BG :: rgb where
  "BG = (8, 8, 16)"

definition PAL_DEFAULT :: "rgb \<times> rgb" where
  "PAL_DEFAULT = ((232, 160, 32), (20, 34, 56))"

definition PAL_MULTI :: "(rgb \<times> rgb) list" where
  "PAL_MULTI =
     [((240, 80, 45), (52, 20, 12)),
      ((55, 210, 95), (14, 45, 22)),
      ((80, 145, 245), (18, 34, 58)),
      ((230, 195, 55), (50, 42, 14))]"

text \<open>\<^verbatim>\<open>def _bright(color, amt): return tuple(min(255, c + amt) for c in color)\<close>\<close>

definition bright :: "rgb \<Rightarrow> int \<Rightarrow> rgb" where
  "bright color amt =
     (case color of (r, g, b) \<Rightarrow> (min 255 (r + amt), min 255 (g + amt), min 255 (b + amt)))"

text \<open>
  The drawing interface the module takes from the imaging library (section 6 of the
  specification): a canvas is its rows of pixels; \<open>new_image\<close> is
  \<^verbatim>\<open>Image.new('RGB', (w, h), bg)\<close>, which raises \<open>ValueError\<close> for a negative width or
  height; \<open>rectangle\<close> is the inclusive rectangle fill
  \<^verbatim>\<open>draw.rectangle([x0, y0, x1, y1], fill=color)\<close>, clipped to the canvas, which raises
  \<open>ValueError\<close> when \<open>x1 < x0\<close> or \<open>y1 < y0\<close>; \<^verbatim>\<open>canvas.copy()\<close> is the canvas itself, a
  value.
\<close>

type_synonym canvas = "rgb list list"

definition new_image :: "int \<Rightarrow> int \<Rightarrow> rgb \<Rightarrow> error + canvas" where
  "new_image w h bg =
     (if w < 0 \<or> h < 0 then Inl ValueError
      else Inr (replicate (nat h) (replicate (nat w) bg)))"

definition rectangle :: "canvas \<Rightarrow> int \<Rightarrow> int \<Rightarrow> int \<Rightarrow> int \<Rightarrow> rgb \<Rightarrow> error + canvas" where
  "rectangle cv x0 y0 x1 y1 fill =
     (if x1 < x0 \<or> y1 < y0 then Inl ValueError
      else Inr
        (map (\<lambda>(y, row).
               map (\<lambda>(x, p). if x0 \<le> int x \<and> int x \<le> x1 \<and> y0 \<le> int y \<and> int y \<le> y1
                              then fill else p)
                 (enumerate 0 row))
            (enumerate 0 cv)))"

text \<open>\<^verbatim>\<open>grid.shape\<close>: the number of rows and the number of columns.\<close>

definition shape :: "grid \<Rightarrow> nat \<times> nat" where
  "shape g = (length g, if g = [] then 0 else length (hd g))"

text \<open>
  \<^verbatim>\<open>grid[r, j]\<close> read: an index outside the array raises \<open>IndexError\<close>. The row indices the
  code passes are never negative (\<open>r - 1\<close> only under \<open>r > 0\<close>, \<open>nrows - 1\<close> only for a grid
  with a row), so they are natural numbers.
\<close>

definition grid_get :: "grid \<Rightarrow> nat \<Rightarrow> nat \<Rightarrow> error + int" where
  "grid_get g i j =
     (if i < length g \<and> j < length (g ! i) then Inr (g ! i ! j) else Inl IndexError)"

subsection \<open>Single-trajectory animation\<close>

text \<open>
  The closure \<open>row_draw\<close> of \<open>spacetime_gif\<close>; \<open>row_draw_cols\<close> is its loop over the columns.
  \<^verbatim>\<open>
  def row_draw(r, one, zero):
      for j in range(ncols):
          v = grid[r, j]
          if v == EMPTY: continue
          color = one if v == 1 else zero
          px = margin + j * cell
          py = margin + r * cell
          draw.rectangle([px + gap, py + gap, px + cell - gap - 1, py + cell - gap - 1],
                         fill=color)
  \<close>
\<close>

fun row_draw_cols ::
  "grid \<Rightarrow> int \<Rightarrow> int \<Rightarrow> int \<Rightarrow> nat \<Rightarrow> rgb \<Rightarrow> rgb \<Rightarrow> nat list \<Rightarrow> canvas \<Rightarrow> error + canvas"
where
  "row_draw_cols grid margin cell gap r one zero [] cv = Inr cv"
| "row_draw_cols grid margin cell gap r one zero (j # js) cv =
     (case grid_get grid r j of
        Inl e \<Rightarrow> Inl e
      | Inr v \<Rightarrow>
          if v = EMPTY then row_draw_cols grid margin cell gap r one zero js cv
          else
            (let color = (if v = 1 then one else zero);
                 px = margin + int j * cell;
                 py = margin + int r * cell
             in case rectangle cv (px + gap) (py + gap)
                       (px + cell - gap - 1) (py + cell - gap - 1) color of
                  Inl e \<Rightarrow> Inl e
                | Inr cv' \<Rightarrow> row_draw_cols grid margin cell gap r one zero js cv'))"

definition row_draw ::
  "grid \<Rightarrow> nat \<Rightarrow> int \<Rightarrow> int \<Rightarrow> int \<Rightarrow> nat \<Rightarrow> rgb \<Rightarrow> rgb \<Rightarrow> canvas \<Rightarrow> error + canvas"
where
  "row_draw grid ncols margin cell gap r one zero cv =
     row_draw_cols grid margin cell gap r one zero [0..<ncols] cv"

text \<open>
  The frame loop of \<open>spacetime_gif\<close>, on the state (canvas, frames):
  \<^verbatim>\<open>
  for r in range(nrows):
      if r > 0: row_draw(r - 1, c1, c0)
      row_draw(r, c1_hi, c0_hi)
      frames.append(canvas.copy())
  \<close>
\<close>

fun frame_loop ::
  "(nat \<Rightarrow> rgb \<Rightarrow> rgb \<Rightarrow> canvas \<Rightarrow> error + canvas) \<Rightarrow> rgb \<times> rgb \<Rightarrow> rgb \<times> rgb \<Rightarrow>
   nat list \<Rightarrow> canvas \<times> canvas list \<Rightarrow> error + canvas \<times> canvas list"
where
  "frame_loop rd base hi [] st = Inr st"
| "frame_loop rd base hi (r # rs) st =
     (case (if r > 0 then rd (r - 1) (fst base) (snd base) (fst st) else Inr (fst st)) of
        Inl e \<Rightarrow> Inl e
      | Inr cv1 \<Rightarrow>
          (case rd r (fst hi) (snd hi) cv1 of
             Inl e \<Rightarrow> Inl e
           | Inr cv2 \<Rightarrow> frame_loop rd base hi rs (cv2, snd st @ [cv2])))"

text \<open>
  \<open>spacetime_gif(n, outpath, accelerated, target_h, delay)\<close>. The result is the frame list
  the function hands to the image writer, with the \<open>nrows\<close> it returns; \<open>outpath\<close> and
  \<open>delay\<close> only reach the writer. \<^verbatim>\<open>target_h // nrows\<close> raises \<open>ZeroDivisionError\<close> for a
  grid without rows, and \<^verbatim>\<open>Image.new\<close> may raise before the first frame. After the loop:
  \<^verbatim>\<open>
  row_draw(nrows - 1, c1, c0)
  final = canvas.copy()
  frames.extend([final] * 30)
  \<close>
\<close>

definition spacetime_gif ::
  "int \<Rightarrow> bool \<Rightarrow> int \<Rightarrow> (error + canvas list \<times> nat) option"
where
  "spacetime_gif n accelerated target_h =
     (case trajectory n accelerated of
        None \<Rightarrow> None
      | Some traj \<Rightarrow> Some
          (case binary_grid traj of
             Inl e \<Rightarrow> Inl e
           | Inr grid \<Rightarrow>
               (let nrows = fst (shape grid); ncols = snd (shape grid) in
                if nrows = 0 then Inl ZeroDivisionError
                else
                  (let cell = max 4 (min 20 (target_h div int nrows));
                       gap = (if cell \<ge> 8 then 1 else 0);
                       margin = 10;
                       w = int ncols * cell + 2 * margin;
                       h = int nrows * cell + 2 * margin;
                       c1 = fst PAL_DEFAULT;
                       c0 = snd PAL_DEFAULT;
                       c1_hi = bright c1 40;
                       c0_hi = bright c0 14
                   in case new_image w h BG of
                        Inl e \<Rightarrow> Inl e
                      | Inr canvas \<Rightarrow>
                          (let rd = row_draw grid ncols margin cell gap
                           in case frame_loop rd (c1, c0) (c1_hi, c0_hi) [0..<nrows]
                                     (canvas, []) of
                                Inl e \<Rightarrow> Inl e
                              | Inr (cv, frames) \<Rightarrow>
                                  (case rd (nrows - 1) c1 c0 cv of
                                     Inl e \<Rightarrow> Inl e
                                   | Inr final \<Rightarrow>
                                       Inr (frames @ replicate 30 final, nrows)))))))"

subsection \<open>Multi-trajectory animation\<close>

text \<open>
  \<^verbatim>\<open>grids = [binary_grid(t) for t in trajs]\<close>: the first exception ends the comprehension.
\<close>

fun collect :: "(error + 'a) list \<Rightarrow> error + 'a list" where
  "collect [] = Inr []"
| "collect (x # xs) =
     (case x of
        Inl e \<Rightarrow> Inl e
      | Inr v \<Rightarrow> (case collect xs of Inl e \<Rightarrow> Inl e | Inr vs \<Rightarrow> Inr (v # vs)))"

text \<open>
  The column offsets, on the state (col_offsets, off):
  \<^verbatim>\<open>
  for g in grids:
      col_offsets.append(off)
      off += g.shape[1] + gap_cols
  \<close>
\<close>

fun offsets_loop :: "int \<Rightarrow> grid list \<Rightarrow> int list \<times> int \<Rightarrow> int list \<times> int" where
  "offsets_loop gap_cols [] st = st"
| "offsets_loop gap_cols (g # gs) st =
     offsets_loop gap_cols gs (fst st @ [snd st], snd st + int (snd (shape g)) + gap_cols)"

text \<open>
  The closure \<open>traj_row\<close> of \<open>parallel_gif\<close>; \<open>traj_row_cols\<close> is its loop over the columns.
  \<^verbatim>\<open>
  def traj_row(idx, row, highlight):
      g = grids[idx]
      if row >= g.shape[0]: return
      pal = PAL_MULTI[idx % len(PAL_MULTI)]
      c1 = _bright(pal[0], 35) if highlight else pal[0]
      c0 = _bright(pal[1], 10) if highlight else pal[1]
      co = col_offsets[idx]
      for j in range(g.shape[1]):
          v = g[row, j]
          if v == EMPTY: continue
          color = c1 if v == 1 else c0
          px = margin + (co + j) * cell
          py = margin + row * cell
          draw.rectangle([px + gap, py + gap, px + cell - gap - 1, py + cell - gap - 1],
                         fill=color)
  \<close>
\<close>

fun traj_row_cols ::
  "grid \<Rightarrow> int \<Rightarrow> int \<Rightarrow> int \<Rightarrow> int \<Rightarrow> nat \<Rightarrow> rgb \<Rightarrow> rgb \<Rightarrow> nat list \<Rightarrow> canvas \<Rightarrow> error + canvas"
where
  "traj_row_cols g margin cell gap co row c1 c0 [] cv = Inr cv"
| "traj_row_cols g margin cell gap co row c1 c0 (j # js) cv =
     (case grid_get g row j of
        Inl e \<Rightarrow> Inl e
      | Inr v \<Rightarrow>
          if v = EMPTY then traj_row_cols g margin cell gap co row c1 c0 js cv
          else
            (let color = (if v = 1 then c1 else c0);
                 px = margin + (co + int j) * cell;
                 py = margin + int row * cell
             in case rectangle cv (px + gap) (py + gap)
                       (px + cell - gap - 1) (py + cell - gap - 1) color of
                  Inl e \<Rightarrow> Inl e
                | Inr cv' \<Rightarrow> traj_row_cols g margin cell gap co row c1 c0 js cv'))"

definition traj_row ::
  "grid list \<Rightarrow> int list \<Rightarrow> int \<Rightarrow> int \<Rightarrow> int \<Rightarrow> nat \<Rightarrow> nat \<Rightarrow> bool \<Rightarrow> canvas \<Rightarrow> error + canvas"
where
  "traj_row grids col_offsets margin cell gap idx row highlight cv =
     (if idx < length grids then
        (let g = grids ! idx in
         if row \<ge> fst (shape g) then Inr cv
         else
           (let pal = PAL_MULTI ! (idx mod length PAL_MULTI);
                c1 = (if highlight then bright (fst pal) 35 else fst pal);
                c0 = (if highlight then bright (snd pal) 10 else snd pal)
            in if idx < length col_offsets then
                 (let co = col_offsets ! idx
                  in traj_row_cols g margin cell gap co row c1 c0 [0..<snd (shape g)] cv)
               else Inl IndexError))
      else Inl IndexError)"

text \<open>
  The frame loop of \<open>parallel_gif\<close>: \<open>par_inner\<close> is the loop over the trajectories within
  one time step, \<open>par_loop\<close> the loop over the time steps, on the state (canvas, frames).
  \<^verbatim>\<open>
  for r in range(max_rows):
      for idx in range(len(grids)):
          if r > 0: traj_row(idx, r - 1, False)
          traj_row(idx, r, True)
      frames.append(canvas.copy())
  \<close>
\<close>

fun par_inner ::
  "(nat \<Rightarrow> nat \<Rightarrow> bool \<Rightarrow> canvas \<Rightarrow> error + canvas) \<Rightarrow> nat \<Rightarrow> nat list \<Rightarrow> canvas \<Rightarrow> error + canvas"
where
  "par_inner tr r [] cv = Inr cv"
| "par_inner tr r (idx # idxs) cv =
     (case (if r > 0 then tr idx (r - 1) False cv else Inr cv) of
        Inl e \<Rightarrow> Inl e
      | Inr cv1 \<Rightarrow>
          (case tr idx r True cv1 of
             Inl e \<Rightarrow> Inl e
           | Inr cv2 \<Rightarrow> par_inner tr r idxs cv2))"

fun par_loop ::
  "(nat \<Rightarrow> nat \<Rightarrow> bool \<Rightarrow> canvas \<Rightarrow> error + canvas) \<Rightarrow> nat \<Rightarrow> nat list \<Rightarrow>
   canvas \<times> canvas list \<Rightarrow> error + canvas \<times> canvas list"
where
  "par_loop tr k [] st = Inr st"
| "par_loop tr k (r # rs) st =
     (case par_inner tr r [0..<k] (fst st) of
        Inl e \<Rightarrow> Inl e
      | Inr cv \<Rightarrow> par_loop tr k rs (cv, snd st @ [cv]))"

text \<open>
  \<^verbatim>\<open>for idx in range(len(grids)): traj_row(idx, grids[idx].shape[0] - 1, False)\<close>
\<close>

fun par_settle ::
  "(nat \<Rightarrow> nat \<Rightarrow> bool \<Rightarrow> canvas \<Rightarrow> error + canvas) \<Rightarrow> grid list \<Rightarrow> nat list \<Rightarrow> canvas \<Rightarrow>
   error + canvas"
where
  "par_settle tr grids [] cv = Inr cv"
| "par_settle tr grids (idx # idxs) cv =
     (if idx < length grids then
        (case tr idx (fst (shape (grids ! idx)) - 1) False cv of
           Inl e \<Rightarrow> Inl e
         | Inr cv' \<Rightarrow> par_settle tr grids idxs cv')
      else Inl IndexError)"

text \<open>
  \<open>parallel_gif(numbers, outpath, accelerated, cell, gap_cols, delay)\<close>. The result is the
  frame list handed to the image writer. The trajectories are computed first, all of them
  (\<open>those\<close>: one that does not return stops everything), then the grids; \<open>max\<close> raises
  \<open>ValueError\<close> for an empty list of grids, and \<^verbatim>\<open>Image.new\<close> may raise before the first
  frame.
\<close>

definition parallel_gif ::
  "int list \<Rightarrow> bool \<Rightarrow> int \<Rightarrow> int \<Rightarrow> (error + canvas list) option"
where
  "parallel_gif numbers accelerated cell gap_cols =
     (case those (map (\<lambda>n. trajectory n accelerated) numbers) of
        None \<Rightarrow> None
      | Some trajs \<Rightarrow> Some
          (case collect (map binary_grid trajs) of
             Inl e \<Rightarrow> Inl e
           | Inr grids \<Rightarrow>
               (case map (\<lambda>g. fst (shape g)) grids of
                  [] \<Rightarrow> Inl ValueError
                | r # rs \<Rightarrow>
                    (let max_rows = fold max rs r;
                         offs = offsets_loop gap_cols grids ([], 0);
                         col_offsets = fst offs;
                         off = snd offs;
                         total_cols = off - gap_cols;
                         gap = (if cell \<ge> 8 then 1 else 0);
                         margin = 10;
                         w = total_cols * cell + 2 * margin;
                         h = int max_rows * cell + 2 * margin
                     in case new_image w h BG of
                          Inl e \<Rightarrow> Inl e
                        | Inr canvas \<Rightarrow>
                            (let tr = traj_row grids col_offsets margin cell gap
                             in case par_loop tr (length grids) [0..<max_rows] (canvas, []) of
                                  Inl e \<Rightarrow> Inl e
                                | Inr (cv, frames) \<Rightarrow>
                                    (case par_settle tr grids [0..<length grids] cv of
                                       Inl e \<Rightarrow> Inl e
                                     | Inr final \<Rightarrow> Inr (frames @ replicate 30 final)))))))"

section \<open>Definitions of the verification\<close>

text \<open>
  None of the following is code of the program: they state the claims or name the
  values the proofs compute with.
\<close>

text \<open>
  Reading a row prefix back as a number, most significant bit first, a cell holding 1 as
  the bit 1 and any other cell as the bit 0.
\<close>

definition read_bits :: "int list \<Rightarrow> int" where
  "read_bits cells = foldl (\<lambda>acc c. 2 * acc + (if c = 1 then 1 else 0)) 0 cells"

text \<open>The halving loop on positive numbers, where it terminates, and the total steps.\<close>

function halve :: "int \<Rightarrow> int" where
  "halve n = (if 0 < n \<and> n mod 2 = 0 then halve (n div 2) else n)"
  by pat_completeness auto
termination
  by (relation "measure nat") auto

declare halve.simps [simp del]

definition t3 :: "int \<Rightarrow> int" where
  "t3 n = (if n \<le> 1 then 1 else halve (if n mod 2 = 1 then 3 * n + 1 else n))"

definition stepf :: "bool \<Rightarrow> int \<Rightarrow> int" where
  "stepf accelerated = (if accelerated then t3 else collatz)"

text \<open>
  \<open>run f x k\<close>: the elements appended after \<open>x\<close> when at most \<open>k\<close> more may be appended.
\<close>

fun run :: "(int \<Rightarrow> int) \<Rightarrow> int \<Rightarrow> nat \<Rightarrow> int list" where
  "run f x 0 = []"
| "run f x (Suc k) = (if x = 1 then [] else f x # run f (f x) k)"

definition traj_of :: "int \<Rightarrow> bool \<Rightarrow> int list" where
  "traj_of n a = (if n \<le> 1 then [n] else n # run (stepf a) n 50000)"

text \<open>The row of a value in a grid of width \<open>w\<close>, the width of a grid, and the grid.\<close>

definition enc_row :: "nat \<Rightarrow> int \<Rightarrow> int list" where
  "enc_row w v = rev (bits_loop v []) @ replicate (w - length (bits_loop v [])) EMPTY"

definition max_bits_of :: "int list \<Rightarrow> nat" where
  "max_bits_of traj = Max (bit_length ` {v \<in> set traj. 0 < v})"

definition grid_of :: "int list \<Rightarrow> grid" where
  "grid_of traj = map (enc_row (max_bits_of traj)) traj"

text \<open>A grid all of whose rows have the width its shape gives.\<close>

definition rect :: "grid \<Rightarrow> bool" where
  "rect g = list_all (\<lambda>row. length row = snd (shape g)) g"

text \<open>The parts of the two animations after their set-up, as they stand in the code.\<close>

definition render_tail ::
  "(nat \<Rightarrow> rgb \<Rightarrow> rgb \<Rightarrow> canvas \<Rightarrow> error + canvas) \<Rightarrow> rgb \<Rightarrow> rgb \<Rightarrow> rgb \<Rightarrow> rgb \<Rightarrow>
   nat \<Rightarrow> canvas \<Rightarrow> error + canvas list \<times> nat"
where
  "render_tail rd c1 c0 c1_hi c0_hi nrows canvas =
     (case frame_loop rd (c1, c0) (c1_hi, c0_hi) [0..<nrows] (canvas, []) of
        Inl e \<Rightarrow> Inl e
      | Inr (cv, frames) \<Rightarrow>
          (case rd (nrows - 1) c1 c0 cv of
             Inl e \<Rightarrow> Inl e
           | Inr final \<Rightarrow> Inr (frames @ replicate 30 final, nrows)))"

definition par_tail ::
  "(nat \<Rightarrow> nat \<Rightarrow> bool \<Rightarrow> canvas \<Rightarrow> error + canvas) \<Rightarrow> grid list \<Rightarrow> nat \<Rightarrow> canvas \<Rightarrow>
   error + canvas list"
where
  "par_tail tr grids max_rows canvas =
     (case par_loop tr (length grids) [0..<max_rows] (canvas, []) of
        Inl e \<Rightarrow> Inl e
      | Inr (cv, frames) \<Rightarrow>
          (case par_settle tr grids [0..<length grids] cv of
             Inl e \<Rightarrow> Inl e
           | Inr final \<Rightarrow> Inr (frames @ replicate 30 final)))"

section \<open>The steps return\<close>

lemma halve_pos: "0 < n \<Longrightarrow> 0 < halve n"
proof (induction n rule: halve.induct)
  case (1 n)
  show ?case
  proof (cases "n mod 2 = 0")
    case True
    with "1.prems" have "0 < n div 2" by presburger
    with True "1.prems" "1.IH" show ?thesis by (subst halve.simps) simp
  next
    case False
    with "1.prems" show ?thesis by (subst halve.simps) simp
  qed
qed

lemma halve_odd: "0 < n \<Longrightarrow> odd (halve n)"
proof (induction n rule: halve.induct)
  case (1 n)
  show ?case
  proof (cases "n mod 2 = 0")
    case True
    with "1.prems" have "0 < n div 2" by presburger
    with True "1.prems" "1.IH" show ?thesis by (subst halve.simps) simp
  next
    case False
    then have "odd n" by presburger
    with False show ?thesis by (subst halve.simps) simp
  qed
qed

lemma collatz_t3_loop_halve: "0 < n \<Longrightarrow> collatz_t3_loop n = Some (halve n)"
proof (induction n rule: halve.induct)
  case (1 n)
  show ?case
  proof (cases "n mod 2 = 0")
    case True
    with "1.prems" have "0 < n div 2" by presburger
    with True "1.prems" "1.IH" have "collatz_t3_loop (n div 2) = Some (halve (n div 2))"
      by simp
    moreover have "collatz_t3_loop n = collatz_t3_loop (n div 2)"
      using True by (subst collatz_t3_loop.simps) simp
    moreover have "halve n = halve (n div 2)"
      using True "1.prems" by (subst halve.simps) simp
    ultimately show ?thesis by simp
  next
    case False
    then have "collatz_t3_loop n = Some n"
      by (subst collatz_t3_loop.simps) simp
    moreover have "halve n = n"
      using False by (subst halve.simps) simp
    ultimately show ?thesis by simp
  qed
qed

lemma collatz_t3_t3: "collatz_t3 n = Some (t3 n)"
  by (simp add: collatz_t3_def t3_def collatz_t3_loop_halve)

lemma step_of_stepf: "step_of a = (\<lambda>n. Some (stepf a n))"
  by (auto simp: step_of_def stepf_def collatz_t3_t3)

lemma t3_odd: "odd (t3 n)"
  by (simp add: t3_def halve_odd)

lemma t3_pos: "1 \<le> t3 n"
proof (cases "n \<le> 1")
  case True
  then show ?thesis by (simp add: t3_def)
next
  case False
  then have "0 < halve (if n mod 2 = 1 then 3 * n + 1 else n)"
    by (intro halve_pos) simp
  with False show ?thesis by (simp add: t3_def)
qed

lemma collatz_pos: "1 \<le> n \<Longrightarrow> 1 \<le> collatz n"
  unfolding collatz_def by (cases "n mod 2 = 0") (simp_all, presburger)

lemma stepf_pos: "1 \<le> n \<Longrightarrow> 1 \<le> stepf a n"
  by (simp add: stepf_def t3_pos collatz_pos)

section \<open>The trajectory loop as a bounded run\<close>

lemma traj_loop_run:
  "length path \<le> 50000 \<Longrightarrow>
   traj_loop (\<lambda>n. Some (f n)) path = Some (path @ run f (last path) (50001 - length path))"
proof (induction "50000 - length path" arbitrary: path)
  case 0
  then have len: "length path = 50000" by simp
  then have fuel: "50001 - length path = Suc 0" by simp
  show ?case
    by (subst traj_loop.simps) (simp add: fuel len Let_def)
next
  case (Suc k)
  then have fuel: "50001 - length path = Suc (Suc k)" by simp
  from Suc have len: "length path < 50000" by simp
  show ?case
  proof (cases "last path = 1")
    case True
    then show ?thesis by (subst traj_loop.simps) (simp add: fuel)
  next
    case False
    let ?p = "path @ [f (last path)]"
    have "k = 50000 - length ?p" using Suc.hyps(2) by simp
    moreover have "length ?p \<le> 50000" using len by simp
    ultimately have "traj_loop (\<lambda>n. Some (f n)) ?p
        = Some (?p @ run f (last ?p) (50001 - length ?p))"
      by (rule Suc.hyps(1))
    moreover have "50001 - length ?p = Suc k" using fuel by simp
    ultimately have "traj_loop (\<lambda>n. Some (f n)) ?p = Some (?p @ run f (f (last path)) (Suc k))"
      by simp
    moreover have "traj_loop (\<lambda>n. Some (f n)) path = traj_loop (\<lambda>n. Some (f n)) ?p"
      using False len by (subst traj_loop.simps) (simp add: Let_def)
    ultimately show ?thesis using False by (simp add: fuel)
  qed
qed

lemma trajectory_run:
  "trajectory n a = Some (if n \<le> 1 then [n] else n # run (stepf a) n 50000)"
  by (simp add: trajectory_def step_of_stepf traj_loop_run Let_def)

section \<open>Properties of bounded runs\<close>

lemma run_length_le: "length (run f x k) \<le> k"
  by (induction k arbitrary: x) auto

lemma run_ge1:
  assumes f: "\<And>y. 1 \<le> y \<Longrightarrow> 1 \<le> f y"
  shows "1 \<le> x \<Longrightarrow> y \<in> set (run f x k) \<Longrightarrow> 1 \<le> y"
proof (induction k arbitrary: x)
  case 0
  then show ?case by simp
next
  case (Suc k)
  then show ?case using f by (auto split: if_splits)
qed

lemma run_nth: "i < length (run f x k) \<Longrightarrow> run f x k ! i = f ((x # run f x k) ! i)"
proof (induction k arbitrary: x i)
  case 0
  then show ?case by simp
next
  case (Suc k)
  show ?case
  proof (cases "x = 1")
    case True
    with Suc.prems show ?thesis by simp
  next
    case False
    show ?thesis
    proof (cases i)
      case 0
      with False show ?thesis by simp
    next
      case (Suc j)
      with Suc.prems False have "j < length (run f (f x) k)" by simp
      then have "run f (f x) k ! j = f ((f x # run f (f x) k) ! j)" by (rule Suc.IH)
      with False Suc show ?thesis by simp
    qed
  qed
qed

lemma run_last: "last (x # run f x k) = 1 \<or> length (run f x k) = k"
  by (induction k arbitrary: x) auto

lemma run_no_one: "1 \<notin> set (butlast (x # run f x k))"
  by (induction k arbitrary: x) auto

lemma run_fuel_step: "length (run f x (Suc k)) \<le> Suc (length (run f x k))"
  by (induction k arbitrary: x) auto

lemma run_numeral:
  "run f x (numeral k) = (if x = 1 then [] else f x # run f (f x) (pred_numeral k))"
  by (simp add: numeral_eq_Suc)

section \<open>The accelerated step inside the standard trajectory\<close>

lemma halve_even: "0 < n \<Longrightarrow> n mod 2 = 0 \<Longrightarrow> halve n = halve (n div 2)"
  by (subst halve.simps) simp

lemma halve_odd_id: "n mod 2 \<noteq> 0 \<Longrightarrow> halve n = n"
  by (subst halve.simps) simp

lemma halve_numeral:
  "halve (numeral k) =
     (if numeral k mod 2 = (0::int) then halve (numeral k div 2) else numeral k)"
  by (subst halve.simps) simp

lemma halve_one: "halve 1 = 1"
  by (subst halve.simps) simp

lemma t3_halve_collatz: "2 \<le> x \<Longrightarrow> t3 x = halve (collatz x)"
proof (cases "x mod 2 = 0")
  case True
  assume "2 \<le> x"
  with True show ?thesis by (simp add: t3_def collatz_def halve_even)
next
  case False
  assume "2 \<le> x"
  moreover from False have "x mod 2 = 1" by presburger
  ultimately show ?thesis by (simp add: t3_def collatz_def)
qed

lemma run_collatz_even:
  "0 < y \<Longrightarrow> y mod 2 = 0 \<Longrightarrow>
   length (run collatz (y div 2) k) \<le> length (run collatz y k)"
proof (cases k)
  case 0
  then show ?thesis by simp
next
  case (Suc j)
  assume y: "0 < y" "y mod 2 = 0"
  then have "y \<noteq> 1" by auto
  with y Suc have "length (run collatz y k) = Suc (length (run collatz (y div 2) j))"
    by (simp add: collatz_def)
  with Suc show ?thesis using run_fuel_step [of collatz "y div 2" j] by simp
qed

lemma run_halve_le:
  "0 < y \<Longrightarrow> length (run collatz (halve y) k) \<le> length (run collatz y k)"
proof (induction y rule: halve.induct)
  case (1 n)
  show ?case
  proof (cases "n mod 2 = 0")
    case True
    with "1.prems" have "0 < n div 2" by presburger
    with True "1.prems" "1.IH"
    have "length (run collatz (halve (n div 2)) k) \<le> length (run collatz (n div 2) k)"
      by simp
    also have "\<dots> \<le> length (run collatz n k)"
      using "1.prems" True by (rule run_collatz_even)
    finally show ?thesis using True "1.prems" by (simp add: halve_even)
  next
    case False
    then show ?thesis by (simp add: halve_odd_id)
  qed
qed

lemma run_t3_le: "1 \<le> x \<Longrightarrow> length (run t3 x k) \<le> length (run collatz x k)"
proof (induction k arbitrary: x)
  case 0
  then show ?case by simp
next
  case (Suc k)
  show ?case
  proof (cases "x = 1")
    case True
    then show ?thesis by simp
  next
    case False
    with Suc.prems have x: "2 \<le> x" by simp
    then have c: "0 < collatz x" using collatz_pos [of x] by simp
    have "length (run t3 (t3 x) k) \<le> length (run collatz (t3 x) k)"
      using t3_pos by (rule Suc.IH)
    also have "\<dots> = length (run collatz (halve (collatz x)) k)"
      using x by (simp add: t3_halve_collatz)
    also have "\<dots> \<le> length (run collatz (collatz x) k)"
      using c by (rule run_halve_le)
    finally show ?thesis using False by simp
  qed
qed

section \<open>Powers of two\<close>

lemma collatz_pow2: "collatz (2 ^ Suc m) = 2 ^ m"
  by (simp add: collatz_def)

lemma pow2_Suc_neq_1: "(2::int) ^ Suc m \<noteq> 1"
proof
  assume "(2::int) ^ Suc m = 1"
  then have "even (1::int)" by (metis even_power dvd_refl even_numeral zero_less_Suc)
  then show False by simp
qed

lemma run_collatz_pow2:
  "k \<le> m \<Longrightarrow>
   length (run collatz (2 ^ Suc m) (Suc k)) = Suc k \<and>
   last (run collatz (2 ^ Suc m) (Suc k)) = 2 ^ (m - k)"
proof (induction k arbitrary: m)
  case 0
  have "run collatz (2 ^ Suc m) (Suc 0) = [2 ^ m]"
    using pow2_Suc_neq_1 [of m] collatz_pow2 [of m] by (simp del: power_Suc)
  then show ?case by simp
next
  case (Suc k)
  then obtain m' where m: "m = Suc m'" and k: "k \<le> m'" by (cases m) auto
  let ?r = "run collatz (2 ^ Suc m') (Suc k)"
  have step: "run collatz (2 ^ Suc (Suc m')) (Suc (Suc k)) = 2 ^ Suc m' # ?r"
    using pow2_Suc_neq_1 [of "Suc m'"] collatz_pow2 [of "Suc m'"] by (simp del: power_Suc)
  from Suc.IH [OF k] have ih: "length ?r = Suc k" "last ?r = 2 ^ (m' - k)"
    by simp_all
  from ih(1) have ne: "?r \<noteq> []" by auto
  show ?case unfolding m step using ih ne by (simp del: run.simps power_Suc)
qed

lemma trajectory_pow2:
  "49999 \<le> m \<Longrightarrow> trajectory (2 ^ Suc m) False = Some p \<Longrightarrow>
   length p = 50001 \<and> last p = 2 ^ (m - 49999)"
proof -
  assume m: "49999 \<le> m" and p: "trajectory (2 ^ Suc m) False = Some p"
  have big: "\<not> (2::int) ^ Suc m \<le> 1"
    using one_le_power [of "2::int" "Suc m"] pow2_Suc_neq_1 [of m] by linarith
  have fuel: "(50000::nat) = Suc 49999" by simp
  from p big have p_eq: "p = 2 ^ Suc m # run collatz (2 ^ Suc m) (Suc 49999)"
    unfolding trajectory_run stepf_def fuel by (simp del: power_Suc run.simps)
  from run_collatz_pow2 [OF m]
  have r: "length (run collatz (2 ^ Suc m) (Suc 49999)) = Suc 49999"
    "last (run collatz (2 ^ Suc m) (Suc 49999)) = 2 ^ (m - 49999)"
    by simp_all
  from r(1) have ne: "run collatz (2 ^ Suc m) (Suc 49999) \<noteq> []" by auto
  show ?thesis unfolding p_eq using r ne by (simp del: power_Suc run.simps)
qed

section \<open>Evaluated runs\<close>

lemma run_collatz_27:
  "length (run collatz 27 50000) = 111 \<and> last (run collatz 27 50000) = 1"
  by (simp add: run_numeral collatz_def)

lemma run_t3_7: "length (run t3 7 50000) = 5"
  by (simp add: run_numeral t3_def halve_numeral halve_one)

lemma run_t3_27: "length (run t3 27 50000) = 41"
  by (simp add: run_numeral t3_def halve_numeral halve_one)

lemma run_t3_97: "length (run t3 97 50000) = 43"
  by (simp add: run_numeral t3_def halve_numeral halve_one)

lemma run_t3_odd: "y \<in> set (run t3 x k) \<Longrightarrow> odd y"
  by (induction k arbitrary: x) (auto simp: t3_odd split: if_splits)

lemma trajectory_cases:
  obtains "n \<le> 1" "trajectory n a = Some [n]"
  | "2 \<le> n" "trajectory n a = Some (n # run (stepf a) n 50000)"
  by (cases "n \<le> 1") (auto simp: trajectory_run)

section \<open>Claims about the sequence engine\<close>

text \<open>
  Claim C9. For every integer \<open>n \<le> 1\<close> and either rule, \<open>trajectory\<close> returns the
  single-element sequence \<open>[n]\<close>.
\<close>

theorem trajectory_degenerate: "n \<le> 1 \<Longrightarrow> trajectory n accelerated = Some [n]"
  by (simp add: trajectory_def Let_def)

theorem trajectory_degenerate_witness:
  "(0::int) \<le> 1 \<and> trajectory 0 True = Some [0] \<and> trajectory 1 False = Some [1]"
  using trajectory_degenerate [of 0 True] trajectory_degenerate [of 1 False] by simp

text \<open>
  Claim C6. For every \<open>n \<ge> 1\<close> and either rule, the trajectory is returned, starts at
  \<open>n\<close>, has only elements \<open>\<ge> 1\<close>, and every element after the first is the stepping
  rule applied to the element before it.
\<close>

theorem trajectory_iterates:
  "1 \<le> n \<Longrightarrow>
   \<exists>p. trajectory n accelerated = Some p \<and> p \<noteq> [] \<and> hd p = n \<and>
       (\<forall>x \<in> set p. 1 \<le> x) \<and>
       (\<forall>i. Suc i < length p \<longrightarrow> step_of accelerated (p ! i) = Some (p ! Suc i))"
proof (rule trajectory_cases [of n accelerated])
  assume "1 \<le> n" "n \<le> 1" "trajectory n accelerated = Some [n]"
  then show ?thesis by simp
next
  assume 2: "2 \<le> n" "trajectory n accelerated = Some (n # run (stepf accelerated) n 50000)"
  let ?r = "run (stepf accelerated) n 50000"
  have "\<forall>x \<in> set (n # ?r). 1 \<le> x"
    using 2(1) run_ge1 [of "stepf accelerated" n _ 50000] stepf_pos [of _ accelerated]
    by auto
  moreover have "\<forall>i. Suc i < length (n # ?r) \<longrightarrow>
      step_of accelerated ((n # ?r) ! i) = Some ((n # ?r) ! Suc i)"
    using run_nth [of _ "stepf accelerated" n 50000] by (simp add: step_of_stepf)
  ultimately show ?thesis using 2(2) by simp
qed

theorem trajectory_iterates_witness:
  "(1::int) \<le> 6 \<and>
   (\<exists>p. trajectory 6 False = Some p \<and> p \<noteq> [] \<and> hd p = 6 \<and>
       (\<forall>x \<in> set p. 1 \<le> x) \<and>
       (\<forall>i. Suc i < length p \<longrightarrow> step_of False (p ! i) = Some (p ! Suc i)))"
  using trajectory_iterates [of 6 False] by simp

text \<open>
  Claim C10. \<open>collatz_t3\<close> returns an odd number for every integer; so for \<open>k \<ge> 2\<close> every
  element after the first of the accelerated trajectory of \<open>k\<close> is odd.
\<close>

theorem collatz_t3_odd:
  "(\<exists>m. collatz_t3 n = Some m \<and> odd m) \<and>
   (2 \<le> k \<longrightarrow> (\<exists>p. trajectory k True = Some p \<and> (\<forall>x \<in> set (tl p). odd x)))"
proof
  show "\<exists>m. collatz_t3 n = Some m \<and> odd m"
    by (simp add: collatz_t3_t3 t3_odd)
  show "2 \<le> k \<longrightarrow> (\<exists>p. trajectory k True = Some p \<and> (\<forall>x \<in> set (tl p). odd x))"
    using run_t3_odd [of _ k 50000] by (auto simp: trajectory_run stepf_def)
qed

theorem collatz_t3_odd_witness:
  "(\<exists>m. collatz_t3 6 = Some m \<and> odd m) \<and> (2::int) \<le> 7 \<and>
   (\<exists>p. trajectory 7 True = Some p \<and> (\<forall>x \<in> set (tl p). odd x))"
  using collatz_t3_odd [of 6 7] by simp

text \<open>
  Claim C3. For every \<open>n\<close>, the accelerated trajectory is returned and is not longer than
  the standard one.
\<close>

theorem accelerated_not_longer:
  "\<exists>p q. trajectory n True = Some p \<and> trajectory n False = Some q \<and> length p \<le> length q"
proof (cases "n \<le> 1")
  case True
  then show ?thesis by (simp add: trajectory_run)
next
  case False
  then have "length (run t3 n 50000) \<le> length (run collatz n 50000)"
    by (intro run_t3_le) simp
  with False show ?thesis by (simp add: trajectory_run stepf_def)
qed

theorem accelerated_not_longer_witness:
  "\<exists>p q. trajectory 27 True = Some p \<and> trajectory 27 False = Some q \<and> length p \<le> length q"
  using accelerated_not_longer [of 27] by simp

text \<open>
  Claim C2, as the code has it. The loop tests \<^verbatim>\<open>len(path) > 50000\<close> after the append, so a
  truncated trajectory has 50001 elements, not 50000: for every \<open>n \<ge> 1\<close> the standard
  trajectory ends with 1 or has exactly 50001 elements, it never has more, and 1 occurs
  nowhere before the last element (the first of the two conditions stops the loop).
\<close>

theorem trajectory_standard_stops:
  "1 \<le> n \<Longrightarrow>
   \<exists>p. trajectory n False = Some p \<and> (last p = 1 \<or> length p = 50001) \<and>
       length p \<le> 50001 \<and> 1 \<notin> set (butlast p)"
proof (rule trajectory_cases [of n False])
  assume "1 \<le> n" "n \<le> 1" "trajectory n False = Some [n]"
  then show ?thesis by simp
next
  assume 2: "2 \<le> n" "trajectory n False = Some (n # run (stepf False) n 50000)"
  let ?r = "run (stepf False) n 50000"
  have "last (n # ?r) = 1 \<or> length (n # ?r) = 50001"
    using run_last [of n "stepf False" 50000] by auto
  moreover have "length (n # ?r) \<le> 50001"
    using run_length_le [of "stepf False" n 50000] by simp
  moreover have "1 \<notin> set (butlast (n # ?r))"
    by (rule run_no_one)
  ultimately show ?thesis using 2(2) by blast
qed

theorem trajectory_standard_stops_witness:
  "(1::int) \<le> 27 \<and>
   (\<exists>p. trajectory 27 False = Some p \<and> (last p = 1 \<or> length p = 50001) \<and>
       length p \<le> 50001 \<and> 1 \<notin> set (butlast p))"
  using trajectory_standard_stops [of 27] by simp

text \<open>
  Claim C2 as stated (truncation at exactly 50000 elements) fails at \<open>n = 2 ^ 50001\<close>: the
  trajectory has 50001 elements and its last element is 2.
\<close>

theorem trajectory_cap_counterexample:
  "(1::int) \<le> 2 ^ 50001 \<and>
   map_option length (trajectory (2 ^ 50001) False) = Some 50001 \<and>
   map_option last (trajectory (2 ^ 50001) False) = Some 2"
proof -
  have e: "(50001::nat) = Suc 50000" by simp
  obtain p where t: "trajectory (2 ^ 50001) False = Some p"
    unfolding trajectory_run by blast
  have "length p = 50001 \<and> last p = 2 ^ (50000 - 49999)"
    by (rule trajectory_pow2 [OF _ t [unfolded e]]) simp
  then have l: "length p = 50001" "last p = 2" by simp_all
  have le: "(1::int) \<le> 2 ^ 50001" by (rule one_le_power) simp
  show ?thesis by (simp only: t option.map l le simp_thms)
qed

text \<open>
  Claim C7. The standard trajectory of 27 has exactly 112 elements and ends with 1; the
  accelerated trajectory of 27 has strictly fewer elements.
\<close>

theorem trajectory_27:
  "\<exists>p q. trajectory 27 False = Some p \<and> trajectory 27 True = Some q \<and>
         length p = 112 \<and> last p = 1 \<and> length q < length p"
proof -
  note std = run_collatz_27 and acc = run_t3_27
  from std have ne: "run collatz 27 50000 \<noteq> []" by auto
  show ?thesis
    using std acc ne by (simp add: trajectory_run stepf_def del: run.simps)
qed

section \<open>The bits of one value\<close>

lemma bits_loop_pos: "0 < v \<Longrightarrow> bits_loop v bits = bits_loop (v div 2) (bits @ [v mod 2])"
  by (subst bits_loop.simps) (simp add: drop_bit_eq_div and_one_eq)

lemma bits_loop_nonpos: "v \<le> 0 \<Longrightarrow> bits_loop v bits = bits"
  by (subst bits_loop.simps) simp

lemma bits_loop_append: "bits_loop v bits = bits @ bits_loop v []"
proof (induction "nat v" arbitrary: v bits rule: less_induct)
  case less
  show ?case
  proof (cases "0 < v")
    case True
    then have lt: "nat (v div 2) < nat v" by simp
    have "bits_loop v bits = bits_loop (v div 2) (bits @ [v mod 2])"
      using True by (rule bits_loop_pos)
    also have "\<dots> = (bits @ [v mod 2]) @ bits_loop (v div 2) []"
      by (rule less [OF lt])
    also have "\<dots> = bits @ ([v mod 2] @ bits_loop (v div 2) [])"
      by simp
    also have "[v mod 2] @ bits_loop (v div 2) [] = bits_loop (v div 2) [v mod 2]"
      by (rule less [OF lt, symmetric])
    also have "bits_loop (v div 2) [v mod 2] = bits_loop v []"
      using bits_loop_pos [OF True, of "[]"] by simp
    finally show ?thesis .
  next
    case False
    then show ?thesis by (simp add: bits_loop_nonpos)
  qed
qed

lemma bits_loop_Cons: "0 < v \<Longrightarrow> bits_loop v [] = v mod 2 # bits_loop (v div 2) []"
  using bits_loop_pos [of v "[]"] bits_loop_append [of "v div 2" "[v mod 2]"] by simp

lemma bit_length_pos: "0 < v \<Longrightarrow> bit_length v = Suc (bit_length (v div 2))"
  by (subst bit_length.simps) simp

lemma bit_length_zero: "bit_length 0 = 0"
  by (subst bit_length.simps) simp

lemma length_bits_loop: "0 \<le> v \<Longrightarrow> length (bits_loop v []) = bit_length v"
proof (induction "nat v" arbitrary: v rule: less_induct)
  case less
  show ?case
  proof (cases "0 < v")
    case True
    then have "nat (v div 2) < nat v" "0 \<le> v div 2" by simp_all
    then have "length (bits_loop (v div 2) []) = bit_length (v div 2)" by (rule less)
    with True show ?thesis by (simp add: bits_loop_Cons bit_length_pos)
  next
    case False
    with less.prems have "v = 0" by simp
    then show ?thesis by (simp add: bits_loop_nonpos bit_length_zero)
  qed
qed

lemma length_bits_loop_nonpos: "v \<le> 0 \<Longrightarrow> length (bits_loop v []) = 0"
  by (simp add: bits_loop_nonpos)

lemma bits_loop_bits: "b \<in> set (bits_loop v []) \<Longrightarrow> b = 0 \<or> b = 1"
proof (induction "nat v" arbitrary: v rule: less_induct)
  case less
  show ?case
  proof (cases "0 < v")
    case True
    then have lt: "nat (v div 2) < nat v" by simp
    from less.prems True have "b = v mod 2 \<or> b \<in> set (bits_loop (v div 2) [])"
      by (simp add: bits_loop_Cons)
    then show ?thesis
    proof
      assume "b = v mod 2"
      then show ?thesis by presburger
    next
      assume "b \<in> set (bits_loop (v div 2) [])"
      with lt show ?thesis by (rule less.hyps)
    qed
  next
    case False
    with less.prems show ?thesis by (simp add: bits_loop_nonpos)
  qed
qed

lemma read_bits_snoc:
  "read_bits (cells @ [c]) = 2 * read_bits cells + (if c = 1 then 1 else 0)"
  by (simp add: read_bits_def)

lemma read_bits_bits_loop: "0 \<le> v \<Longrightarrow> read_bits (rev (bits_loop v [])) = v"
proof (induction "nat v" arbitrary: v rule: less_induct)
  case less
  show ?case
  proof (cases "0 < v")
    case True
    then have "nat (v div 2) < nat v" "0 \<le> v div 2" by simp_all
    then have "read_bits (rev (bits_loop (v div 2) [])) = v div 2" by (rule less)
    moreover have "(if v mod 2 = 1 then 1 else 0) = v mod 2" by presburger
    ultimately show ?thesis using True by (simp add: bits_loop_Cons read_bits_snoc)
  next
    case False
    with less.prems have "v = 0" by simp
    then show ?thesis by (simp add: bits_loop_nonpos read_bits_def)
  qed
qed

lemma bit_length_bounds: "0 < v \<Longrightarrow> 2 ^ (bit_length v - 1) \<le> v \<and> v < 2 ^ bit_length v"
proof (induction "nat v" arbitrary: v rule: less_induct)
  case less
  have bl: "bit_length v = Suc (bit_length (v div 2))"
    using less.prems by (rule bit_length_pos)
  show ?case
  proof (cases "v = 1")
    case True
    then have "bit_length v = Suc 0" using bl by (simp add: bit_length_zero)
    with True show ?thesis by simp
  next
    case False
    with less.prems have h: "0 < v div 2" "nat (v div 2) < nat v" by simp_all
    define k where "k = bit_length (v div 2)"
    from h(1) have "k = Suc (bit_length (v div 2 div 2))"
      unfolding k_def by (rule bit_length_pos)
    then obtain k' where k: "k = Suc k'" by blast
    from less.hyps [OF h(2) h(1)]
    have "2 ^ k' \<le> v div 2" "v div 2 < 2 ^ k"
      by (simp_all add: k_def [symmetric] k)
    then have "2 * 2 ^ k' \<le> v" "v < 2 * 2 ^ k" by linarith+
    then show ?thesis by (simp add: bl k_def [symmetric] k)
  qed
qed

section \<open>Writing one row\<close>

lemma write_bits_row:
  "i < length g \<Longrightarrow> j + length bs \<le> length (g ! i) \<Longrightarrow>
   write_bits g i j bs = Inr (g[i := take j (g ! i) @ bs @ drop (j + length bs) (g ! i)])"
proof (induction bs arbitrary: g j)
  case Nil
  then show ?case by simp
next
  case (Cons b bs)
  let ?g = "g[i := (g ! i)[j := b]]"
  from Cons.prems have j: "j < length (g ! i)" by simp
  with Cons.prems have set: "grid_set g i j b = Inr ?g" by (simp add: grid_set_def)
  have row: "?g ! i = (g ! i)[j := b]" using Cons.prems by simp
  have "write_bits ?g i (Suc j) bs
      = Inr (?g[i := take (Suc j) (?g ! i) @ bs @ drop (Suc j + length bs) (?g ! i)])"
    using Cons.prems by (intro Cons.IH) simp_all
  moreover have "take (Suc j) ((g ! i)[j := b]) = take j (g ! i) @ [b]"
    using j by (simp add: take_Suc_conv_app_nth)
  ultimately show ?case using set row by simp
qed

lemma enc_row_length: "length (bits_loop v []) \<le> w \<Longrightarrow> length (enc_row w v) = w"
  by (simp add: enc_row_def)

lemma fill_rows_enc:
  "\<forall>v \<in> set vals. length (bits_loop v []) \<le> w \<Longrightarrow>
   fill_rows (pre @ replicate (length vals) (replicate w EMPTY)) (length pre) vals
     = Inr (pre @ map (enc_row w) vals)"
proof (induction vals arbitrary: pre)
  case Nil
  then show ?case by simp
next
  case (Cons v vals)
  let ?bits = "rev (bits_loop v [])"
  let ?rest = "replicate (length vals) (replicate w EMPTY)"
  let ?g = "pre @ replicate w EMPTY # ?rest"
  from Cons.prems have len: "length ?bits \<le> w" by simp
  have "write_bits ?g (length pre) 0 ?bits
      = Inr (?g[length pre := take 0 (?g ! length pre) @ ?bits
               @ drop (0 + length ?bits) (?g ! length pre)])"
    using len by (intro write_bits_row) simp_all
  then have w: "write_bits ?g (length pre) 0 ?bits = Inr ((pre @ [enc_row w v]) @ ?rest)"
    by (simp add: enc_row_def list_update_append)
  have "fill_rows ((pre @ [enc_row w v]) @ ?rest) (length (pre @ [enc_row w v])) vals
      = Inr ((pre @ [enc_row w v]) @ map (enc_row w) vals)"
    using Cons.prems by (intro Cons.IH) simp
  then show ?case using w by (simp add: Let_def)
qed

lemma binary_grid_none: "\<forall>v \<in> set traj. v \<le> 0 \<Longrightarrow> binary_grid traj = Inl ValueError"
proof -
  assume "\<forall>v \<in> set traj. v \<le> 0"
  then have "filter (\<lambda>v. v > 0) traj = []"
    by (auto simp: filter_empty_conv)
  then show ?thesis by (simp add: binary_grid_def)
qed

lemma binary_grid_enc:
  assumes "\<exists>v \<in> set traj. 0 < v"
  shows "binary_grid traj = Inr (map (enc_row (max_bits_of traj)) traj)"
proof -
  let ?bl = "map bit_length (filter (\<lambda>v. v > 0) traj)"
  have set_bl: "set ?bl = bit_length ` {v \<in> set traj. 0 < v}" by auto
  from assms have "?bl \<noteq> []" by (auto simp: filter_empty_conv)
  then obtain b bs where bl: "?bl = b # bs" by (cases ?bl) auto
  have "fold max bs b = Max (set (b # bs))" by (rule Max.set_eq_fold [symmetric])
  then have mx: "fold max bs b = max_bits_of traj"
    using set_bl bl by (simp add: max_bits_of_def)
  have "\<forall>v \<in> set traj. length (bits_loop v []) \<le> max_bits_of traj"
  proof
    fix v assume v: "v \<in> set traj"
    show "length (bits_loop v []) \<le> max_bits_of traj"
    proof (cases "0 < v")
      case True
      with v have "bit_length v \<in> bit_length ` {v \<in> set traj. 0 < v}" by simp
      then have "bit_length v \<le> max_bits_of traj"
        unfolding max_bits_of_def by (intro Max_ge) simp_all
      with True show ?thesis by (simp add: length_bits_loop)
    next
      case False
      then show ?thesis by (simp add: bits_loop_nonpos)
    qed
  qed
  then have "fill_rows ([] @ replicate (length traj) (replicate (max_bits_of traj) EMPTY))
      (length ([] :: grid)) traj = Inr ([] @ map (enc_row (max_bits_of traj)) traj)"
    by (rule fill_rows_enc)
  then show ?thesis using bl mx by (simp add: binary_grid_def Let_def)
qed

lemma enc_row_take:
  "0 \<le> v \<Longrightarrow> bit_length v \<le> w \<Longrightarrow> take (bit_length v) (enc_row w v) = rev (bits_loop v [])"
  by (simp add: enc_row_def length_bits_loop)

lemma enc_row_nth:
  assumes "0 \<le> v" "bit_length v \<le> w" "j < w"
  shows "(enc_row w v ! j \<noteq> EMPTY) = (j < bit_length v)"
proof (cases "j < bit_length v")
  case True
  then have "enc_row w v ! j \<in> set (rev (bits_loop v []))"
    using assms(1) by (simp add: enc_row_def nth_append length_bits_loop del: set_rev)
  then have "enc_row w v ! j = 0 \<or> enc_row w v ! j = 1"
    using bits_loop_bits [of "enc_row w v ! j" v] by simp
  with True show ?thesis by (auto simp: EMPTY_def)
next
  case False
  with assms show ?thesis by (simp add: enc_row_def nth_append length_bits_loop)
qed

lemma enc_row_filled:
  assumes "0 \<le> v"
  shows "length (filter (\<lambda>c. c \<noteq> EMPTY) (enc_row w v)) = bit_length v"
proof -
  have "\<forall>b \<in> set (bits_loop v []). b \<noteq> EMPTY"
  proof
    fix b assume "b \<in> set (bits_loop v [])"
    then have "b = 0 \<or> b = 1" by (rule bits_loop_bits)
    then show "b \<noteq> EMPTY" by (auto simp: EMPTY_def)
  qed
  then have "filter (\<lambda>c. c \<noteq> EMPTY) (rev (bits_loop v [])) = rev (bits_loop v [])"
    by (simp add: filter_id_conv)
  then show ?thesis using assms by (simp add: enc_row_def length_bits_loop)
qed

lemma max_bits_of_ge: "v \<in> set traj \<Longrightarrow> 0 < v \<Longrightarrow> bit_length v \<le> max_bits_of traj"
  unfolding max_bits_of_def by (intro Max_ge) simp_all

section \<open>Claims about the bit-grid encoder\<close>

text \<open>
  Claim C1. For every trajectory of positive integers the grid is returned, with one row
  per element, and for every row index \<open>i\<close> the first \<open>bit_length (traj ! i)\<close> cells of row
  \<open>i\<close> are all 0 or 1 and, read most significant bit first, give back \<open>traj ! i\<close>.
\<close>

theorem binary_grid_roundtrip:
  assumes "traj \<noteq> []" and "\<forall>v \<in> set traj. 0 < v"
  shows "\<exists>g. binary_grid traj = Inr g \<and> length g = length traj \<and>
    (\<forall>i < length traj.
       (\<forall>c \<in> set (take (bit_length (traj ! i)) (g ! i)). c = 0 \<or> c = 1) \<and>
       read_bits (take (bit_length (traj ! i)) (g ! i)) = traj ! i)"
proof -
  let ?w = "max_bits_of traj"
  let ?g = "map (enc_row ?w) traj"
  from assms have "\<exists>v \<in> set traj. 0 < v" by (cases traj) auto
  then have g: "binary_grid traj = Inr ?g" by (rule binary_grid_enc)
  have "\<forall>i < length traj.
       (\<forall>c \<in> set (take (bit_length (traj ! i)) (?g ! i)). c = 0 \<or> c = 1) \<and>
       read_bits (take (bit_length (traj ! i)) (?g ! i)) = traj ! i"
  proof (intro allI impI)
    fix i assume i: "i < length traj"
    then have v: "traj ! i \<in> set traj" "0 < traj ! i" using assms(2) by simp_all
    then have "bit_length (traj ! i) \<le> ?w" by (rule max_bits_of_ge)
    with v(2) have t: "take (bit_length (traj ! i)) (?g ! i) = rev (bits_loop (traj ! i) [])"
      using i by (simp add: enc_row_take)
    show "(\<forall>c \<in> set (take (bit_length (traj ! i)) (?g ! i)). c = 0 \<or> c = 1) \<and>
       read_bits (take (bit_length (traj ! i)) (?g ! i)) = traj ! i"
      unfolding t using v(2) bits_loop_bits [of _ "traj ! i"]
      by (simp add: read_bits_bits_loop)
  qed
  with g show ?thesis by simp
qed

text \<open>
  Claim C4. For every trajectory of positive integers the grid has as many rows as the
  trajectory has elements; every row has the width \<open>max (bit_length v)\<close> over the values
  \<open>v > 0\<close>; row \<open>i\<close> has exactly \<open>bit_length (traj ! i)\<close> cells other than \<open>EMPTY\<close>, and they
  are the cells at the columns below \<open>bit_length (traj ! i)\<close>.
\<close>

theorem binary_grid_shape:
  assumes "traj \<noteq> []" and "\<forall>v \<in> set traj. 0 < v"
  shows "\<exists>g. binary_grid traj = Inr g \<and> length g = length traj \<and>
    (\<forall>i < length traj.
       length (g ! i) = Max (bit_length ` {v \<in> set traj. 0 < v}) \<and>
       length (filter (\<lambda>c. c \<noteq> EMPTY) (g ! i)) = bit_length (traj ! i) \<and>
       (\<forall>j < length (g ! i). (g ! i ! j \<noteq> EMPTY) = (j < bit_length (traj ! i))))"
proof -
  let ?w = "max_bits_of traj"
  let ?g = "map (enc_row ?w) traj"
  from assms have "\<exists>v \<in> set traj. 0 < v" by (cases traj) auto
  then have g: "binary_grid traj = Inr ?g" by (rule binary_grid_enc)
  have "\<forall>i < length traj.
       length (?g ! i) = ?w \<and>
       length (filter (\<lambda>c. c \<noteq> EMPTY) (?g ! i)) = bit_length (traj ! i) \<and>
       (\<forall>j < length (?g ! i). (?g ! i ! j \<noteq> EMPTY) = (j < bit_length (traj ! i)))"
  proof (intro allI impI)
    fix i assume i: "i < length traj"
    then have v: "traj ! i \<in> set traj" "0 < traj ! i" using assms(2) by simp_all
    then have le: "bit_length (traj ! i) \<le> ?w" by (rule max_bits_of_ge)
    with v(2) have len: "length (enc_row ?w (traj ! i)) = ?w"
      by (simp add: enc_row_length length_bits_loop)
    have "\<forall>j < ?w. (enc_row ?w (traj ! i) ! j \<noteq> EMPTY) = (j < bit_length (traj ! i))"
      using v(2) le by (simp add: enc_row_nth)
    then show "length (?g ! i) = ?w \<and>
       length (filter (\<lambda>c. c \<noteq> EMPTY) (?g ! i)) = bit_length (traj ! i) \<and>
       (\<forall>j < length (?g ! i). (?g ! i ! j \<noteq> EMPTY) = (j < bit_length (traj ! i)))"
      using i v(2) len by (simp add: enc_row_filled)
  qed
  with g show ?thesis by (simp add: max_bits_of_def)
qed

section \<open>Evaluating the encoder\<close>

lemma bits_loop_numeral:
  "bits_loop (numeral k) bits = bits_loop (numeral k div 2) (bits @ [numeral k mod 2])"
  by (rule bits_loop_pos) simp

lemma bits_loop_1: "bits_loop 1 bits = bits @ [1]"
  using bits_loop_pos [of 1 bits] by (simp add: bits_loop_nonpos)

lemma bit_length_1: "bit_length 1 = Suc 0"
  using bit_length_pos [of 1] by (simp add: bit_length_zero)

lemma bits_loop_0: "bits_loop 0 bits = bits"
  by (rule bits_loop_nonpos) simp

lemma bit_length_numeral: "bit_length (numeral k) = Suc (bit_length (numeral k div 2))"
  by (rule bit_length_pos) simp

lemma binary_grid_example:
  "binary_grid [3, 10, 5] = Inr [[1, 1, - 1, - 1], [1, 0, 1, 0], [1, 0, 1, - 1]]"
  by (simp add: binary_grid_def bits_loop_numeral bits_loop_0 bits_loop_1 bit_length_numeral
      bit_length_1 bit_length_zero grid_set_def EMPTY_def Let_def)

theorem binary_grid_roundtrip_witness:
  "[3, 10, 5] \<noteq> ([] :: int list) \<and> list_all (\<lambda>v. 0 < v) [3, 10, 5 :: int] \<and>
   binary_grid [3, 10, 5] = Inr [[1, 1, - 1, - 1], [1, 0, 1, 0], [1, 0, 1, - 1]] \<and>
   (\<exists>g. binary_grid [3, 10, 5] = Inr g \<and> length g = length [3, 10, 5 :: int] \<and>
    (\<forall>i < length [3, 10, 5 :: int].
       (\<forall>c \<in> set (take (bit_length ([3, 10, 5] ! i)) (g ! i)). c = 0 \<or> c = 1) \<and>
       read_bits (take (bit_length ([3, 10, 5] ! i)) (g ! i)) = [3, 10, 5] ! i))"
proof -
  have h: "[3, 10, 5] \<noteq> ([] :: int list)" "\<forall>v \<in> set [3, 10, 5 :: int]. 0 < v" by simp_all
  from binary_grid_roundtrip [OF h] binary_grid_example show ?thesis
    by simp
qed

theorem binary_grid_shape_witness:
  "[3, 10, 5] \<noteq> ([] :: int list) \<and> list_all (\<lambda>v. 0 < v) [3, 10, 5 :: int] \<and>
   (\<exists>g. binary_grid [3, 10, 5] = Inr g \<and> length g = length [3, 10, 5 :: int] \<and>
    (\<forall>i < length [3, 10, 5 :: int].
       length (g ! i) = Max (bit_length ` {v \<in> set [3, 10, 5]. 0 < v}) \<and>
       length (filter (\<lambda>c. c \<noteq> EMPTY) (g ! i)) = bit_length ([3, 10, 5] ! i) \<and>
       (\<forall>j < length (g ! i). (g ! i ! j \<noteq> EMPTY) = (j < bit_length ([3, 10, 5] ! i)))))"
proof -
  have h: "[3, 10, 5] \<noteq> ([] :: int list)" "\<forall>v \<in> set [3, 10, 5 :: int]. 0 < v" by simp_all
  from binary_grid_shape [OF h] show ?thesis by simp
qed

section \<open>The grids of trajectories\<close>

lemma trajectory_traj_of: "trajectory n a = Some (traj_of n a)"
  by (simp add: trajectory_run traj_of_def)

lemma traj_of_nonempty: "traj_of n a \<noteq> []"
  by (simp add: traj_of_def)

lemma traj_of_pos: "1 \<le> n \<Longrightarrow> x \<in> set (traj_of n a) \<Longrightarrow> 0 < x"
proof -
  assume n: "1 \<le> n" and x: "x \<in> set (traj_of n a)"
  have "1 \<le> x"
  proof (cases "x = n")
    case True
    with n show ?thesis by simp
  next
    case False
    with x have "x \<in> set (run (stepf a) n 50000)"
      by (auto simp: traj_of_def split: if_splits)
    with n show ?thesis using run_ge1 [of "stepf a" n x 50000] stepf_pos [of _ a] by blast
  qed
  then show ?thesis by simp
qed

lemma binary_grid_grid_of:
  "traj \<noteq> [] \<Longrightarrow> \<forall>v \<in> set traj. 0 < v \<Longrightarrow> binary_grid traj = Inr (grid_of traj)"
proof -
  assume "traj \<noteq> []" "\<forall>v \<in> set traj. 0 < v"
  then have "\<exists>v \<in> set traj. 0 < v" by (cases traj) auto
  then show ?thesis unfolding grid_of_def by (rule binary_grid_enc)
qed

lemma grid_of_row_length:
  assumes "\<forall>v \<in> set traj. 0 < v" and "row \<in> set (grid_of traj)"
  shows "length row = max_bits_of traj"
proof -
  from assms(2) obtain v where v: "v \<in> set traj" "row = enc_row (max_bits_of traj) v"
    by (auto simp: grid_of_def)
  with assms(1) have "0 < v" by simp
  with v(1) have "length (bits_loop v []) \<le> max_bits_of traj"
    using max_bits_of_ge [of v traj] by (simp add: length_bits_loop)
  with v(2) show ?thesis by (simp add: enc_row_length)
qed

lemma shape_grid_of:
  assumes "traj \<noteq> []" and "\<forall>v \<in> set traj. 0 < v"
  shows "shape (grid_of traj) = (length traj, max_bits_of traj)"
proof -
  from assms(1) have ne: "grid_of traj \<noteq> []" by (simp add: grid_of_def)
  then have "hd (grid_of traj) \<in> set (grid_of traj)" by simp
  with assms(2) have "length (hd (grid_of traj)) = max_bits_of traj"
    by (rule grid_of_row_length)
  with ne show ?thesis by (simp add: shape_def) (simp add: grid_of_def)
qed

lemma rect_grid_of:
  assumes "traj \<noteq> []" and "\<forall>v \<in> set traj. 0 < v"
  shows "rect (grid_of traj)"
  using assms grid_of_row_length [OF assms(2)]
  by (simp add: rect_def shape_grid_of list_all_iff)

section \<open>Painting never fails on a rectangular grid\<close>

lemma rectangle_ok:
  "2 * gap + 1 \<le> cell \<Longrightarrow>
   \<exists>cv'. rectangle cv (px + gap) (py + gap) (px + cell - gap - 1) (py + cell - gap - 1) color
     = Inr cv'"
  by (simp add: rectangle_def)

lemma rectangle_raises:
  "x1 < x0 \<or> y1 < y0 \<Longrightarrow> rectangle cv x0 y0 x1 y1 color = Inl ValueError"
  by (simp add: rectangle_def)

lemma new_image_ok: "0 \<le> w \<Longrightarrow> 0 \<le> h \<Longrightarrow> \<exists>cv. new_image w h bg = Inr cv"
  by (simp add: new_image_def)

lemma new_image_raises: "w < 0 \<or> h < 0 \<Longrightarrow> new_image w h bg = Inl ValueError"
  by (simp add: new_image_def)

lemma row_draw_cols_ok:
  "2 * gap + 1 \<le> cell \<Longrightarrow> r < length grid \<Longrightarrow> \<forall>j \<in> set js. j < length (grid ! r) \<Longrightarrow>
   \<exists>cv'. row_draw_cols grid margin cell gap r one zero js cv = Inr cv'"
proof (induction js arbitrary: cv)
  case Nil
  then show ?case by simp
next
  case (Cons j js)
  then have get: "grid_get grid r j = Inr (grid ! r ! j)" by (simp add: grid_get_def)
  from Cons.prems have rest: "\<forall>j \<in> set js. j < length (grid ! r)" by simp
  show ?case
  proof (cases "grid ! r ! j = EMPTY")
    case True
    with get Cons.IH [OF Cons.prems(1,2) rest] show ?thesis by simp
  next
    case False
    let ?color = "if grid ! r ! j = 1 then one else zero"
    from rectangle_ok [OF Cons.prems(1)]
    obtain cv1 where "rectangle cv (margin + int j * cell + gap) (margin + int r * cell + gap)
        (margin + int j * cell + cell - gap - 1) (margin + int r * cell + cell - gap - 1) ?color
      = Inr cv1"
      by blast
    with get False Cons.IH [OF Cons.prems(1,2) rest, of cv1] show ?thesis
      by (simp add: Let_def)
  qed
qed

lemma row_draw_ok:
  assumes "rect grid" and "r < length grid" and "2 * gap + 1 \<le> cell"
  shows "\<exists>cv'. row_draw grid (snd (shape grid)) margin cell gap r one zero cv = Inr cv'"
proof -
  from assms have "length (grid ! r) = snd (shape grid)"
    by (simp add: rect_def list_all_length)
  then have "\<forall>j \<in> set [0..<snd (shape grid)]. j < length (grid ! r)" by simp
  with assms(3,2) show ?thesis unfolding row_draw_def by (rule row_draw_cols_ok)
qed

lemma frame_loop_frames:
  assumes rd: "\<And>r one zero cv. r < k \<Longrightarrow> \<exists>cv'. rd r one zero cv = Inr cv'"
  shows "\<forall>r \<in> set rs. r < k \<Longrightarrow>
    \<exists>cv' fr. frame_loop rd base hi rs (cv, frames) = Inr (cv', frames @ fr) \<and>
             length fr = length rs"
proof (induction rs arbitrary: cv frames)
  case Nil
  then show ?case by simp
next
  case (Cons r rs)
  then have r: "r < k" by simp
  have "\<exists>cv1. (if r > 0 then rd (r - 1) (fst base) (snd base) cv else Inr cv) = Inr cv1"
  proof (cases "r > 0")
    case True
    with r have "r - 1 < k" by simp
    from rd [OF this] show ?thesis using True by simp
  next
    case False
    then show ?thesis by simp
  qed
  then obtain cv1 where cv1:
    "(if r > 0 then rd (r - 1) (fst base) (snd base) cv else Inr cv) = Inr cv1" ..
  from rd [OF r] obtain cv2 where cv2: "rd r (fst hi) (snd hi) cv1 = Inr cv2" by blast
  from Cons.prems have "\<forall>r \<in> set rs. r < k" by simp
  from Cons.IH [OF this, of cv2 "frames @ [cv2]"]
  obtain cv' fr where rest: "frame_loop rd base hi rs (cv2, frames @ [cv2])
      = Inr (cv', (frames @ [cv2]) @ fr)" and fr: "length fr = length rs"
    by blast
  have "frame_loop rd base hi (r # rs) (cv, frames)
      = frame_loop rd base hi rs (cv2, frames @ [cv2])"
    by (simp only: frame_loop.simps fst_conv snd_conv cv1 cv2 sum.case)
  with rest fr have "frame_loop rd base hi (r # rs) (cv, frames) = Inr (cv', frames @ (cv2 # fr)) \<and>
      length (cv2 # fr) = length (r # rs)"
    by simp
  then show ?case by blast
qed

lemma render_tail_ok:
  assumes "rect grid" and "0 < length grid" and "2 * gap + 1 \<le> cell"
  shows "\<exists>fr final. render_tail (row_draw grid (snd (shape grid)) margin cell gap) c1 c0 c1h c0h
            (length grid) cv0 = Inr (fr @ replicate 30 final, length grid) \<and>
          length fr = length grid"
proof -
  let ?rd = "row_draw grid (snd (shape grid)) margin cell gap"
  have rd_ok: "\<exists>cv'. ?rd r one zero cv = Inr cv'" if "r < length grid" for r one zero cv
    using assms(1) that assms(3) by (rule row_draw_ok)
  have "\<forall>r \<in> set [0..<length grid]. r < length grid" by simp
  from frame_loop_frames [of "length grid" ?rd, OF rd_ok this, of "(c1, c0)" "(c1h, c0h)" cv0 "[]"]
  obtain cv fr where loop:
    "frame_loop ?rd (c1, c0) (c1h, c0h) [0..<length grid] (cv0, []) = Inr (cv, fr)"
    and fr: "length fr = length grid"
    by auto
  from assms(2) have "length grid - 1 < length grid" by simp
  from rd_ok [OF this] obtain final where final: "?rd (length grid - 1) c1 c0 cv = Inr final"
    by blast
  have "render_tail ?rd c1 c0 c1h c0h (length grid) cv0
      = Inr (fr @ replicate 30 final, length grid)"
    by (simp only: render_tail_def loop final sum.case prod.case)
  with fr show ?thesis by blast
qed

lemma spacetime_gif_render:
  "spacetime_gif n accelerated target_h =
     (case trajectory n accelerated of
        None \<Rightarrow> None
      | Some traj \<Rightarrow> Some
          (case binary_grid traj of
             Inl e \<Rightarrow> Inl e
           | Inr grid \<Rightarrow>
               (let nrows = fst (shape grid); ncols = snd (shape grid) in
                if nrows = 0 then Inl ZeroDivisionError
                else
                  (let cell = max 4 (min 20 (target_h div int nrows));
                       gap = (if cell \<ge> 8 then 1 else 0);
                       margin = 10;
                       w = int ncols * cell + 2 * margin;
                       h = int nrows * cell + 2 * margin;
                       c1 = fst PAL_DEFAULT;
                       c0 = snd PAL_DEFAULT;
                       c1_hi = bright c1 40;
                       c0_hi = bright c0 14
                   in case new_image w h BG of
                        Inl e \<Rightarrow> Inl e
                      | Inr canvas \<Rightarrow>
                          (let rd = row_draw grid ncols margin cell gap
                           in render_tail rd c1 c0 c1_hi c0_hi nrows canvas)))))"
  by (simp only: spacetime_gif_def render_tail_def)

section \<open>Claims about the frame compositor\<close>

text \<open>
  Claim C5. For every \<open>n \<ge> 1\<close>, either rule and every target height, \<open>spacetime_gif\<close>
  returns, raises nothing and reports the trajectory length as its number of rows; its
  frame list is one frame per row followed by the 30 held copies of the final frame, so
  its length is the height plus 30.
\<close>

theorem spacetime_gif_frames:
  assumes "1 \<le> n"
  shows "\<exists>traj loop_frames final frames.
     trajectory n accelerated = Some traj \<and>
     spacetime_gif n accelerated target_h = Some (Inr (frames, length traj)) \<and>
     frames = loop_frames @ replicate 30 final \<and>
     length loop_frames = length traj \<and>
     length frames = length traj + 30"
proof -
  let ?t = "traj_of n accelerated"
  let ?g = "grid_of ?t"
  have ne: "?t \<noteq> []" by (rule traj_of_nonempty)
  have pos: "\<forall>v \<in> set ?t. 0 < v" using assms traj_of_pos by blast
  have g: "binary_grid ?t = Inr ?g" using ne pos by (rule binary_grid_grid_of)
  have sh: "shape ?g = (length ?t, max_bits_of ?t)" using ne pos by (rule shape_grid_of)
  have len: "length ?g = length ?t" by (simp add: grid_of_def)
  have rc: "rect ?g" using ne pos by (rule rect_grid_of)
  from ne have gpos: "0 < length ?g" by (simp add: len)
  from ne have nz: "(length ?t = 0) = False" by simp
  let ?cell = "max 4 (min 20 (target_h div int (length ?t)))"
  let ?gap = "if ?cell \<ge> 8 then 1 else 0 :: int"
  let ?c1 = "fst PAL_DEFAULT" and ?c0 = "snd PAL_DEFAULT"
  have geo: "2 * ?gap + 1 \<le> ?cell" by auto
  have cpos: "0 \<le> ?cell" by simp
  have "0 \<le> int (max_bits_of ?t) * ?cell" "0 \<le> int (length ?t) * ?cell"
    using cpos by (simp_all only: mult_nonneg_nonneg of_nat_0_le_iff)
  then have "0 \<le> int (max_bits_of ?t) * ?cell + 2 * 10" "0 \<le> int (length ?t) * ?cell + 2 * 10"
    by linarith+
  from new_image_ok [OF this]
  obtain cv0 where ni: "new_image (int (max_bits_of ?t) * ?cell + 2 * 10)
     (int (length ?t) * ?cell + 2 * 10) BG = Inr cv0"
    by blast
  have eq: "spacetime_gif n accelerated target_h =
      Some (render_tail (row_draw ?g (max_bits_of ?t) 10 ?cell ?gap)
              ?c1 ?c0 (bright ?c1 40) (bright ?c0 14) (length ?t) cv0)"
    by (simp only: spacetime_gif_render trajectory_traj_of option.case g sum.case Let_def sh
        fst_conv snd_conv nz if_False ni)
  from render_tail_ok [OF rc gpos geo, unfolded sh snd_conv len]
  obtain fr final where
    "render_tail (row_draw ?g (max_bits_of ?t) 10 ?cell ?gap)
       ?c1 ?c0 (bright ?c1 40) (bright ?c0 14) (length ?t) cv0
       = Inr (fr @ replicate 30 final, length ?t)"
    "length fr = length ?t"
    by blast
  with eq show ?thesis by (simp add: trajectory_traj_of)
qed

theorem spacetime_gif_frames_witness:
  "(1::int) \<le> 27 \<and>
   (\<exists>traj loop_frames final frames.
      trajectory 27 False = Some traj \<and>
      spacetime_gif 27 False 850 = Some (Inr (frames, length traj)) \<and>
      frames = loop_frames @ replicate 30 final \<and>
      length loop_frames = length traj \<and>
      length frames = length traj + 30) \<and>
   (\<exists>frames. spacetime_gif 27 False 850 = Some (Inr (frames, 112)) \<and> length frames = 142)"
proof -
  have h: "(1::int) \<le> 27" by simp
  from spacetime_gif_frames [OF h, of False 850]
  obtain traj loop_frames final frames where t: "trajectory 27 False = Some traj"
    and s: "spacetime_gif 27 False 850 = Some (Inr (frames, length traj))"
    and f: "frames = loop_frames @ replicate 30 final" "length loop_frames = length traj"
    and l: "length frames = length traj + 30"
    by blast
  from t have "traj = 27 # run collatz 27 50000"
    by (simp add: trajectory_run stepf_def del: run.simps)
  then have "length traj = 112" using run_collatz_27 by simp
  with s l have "spacetime_gif 27 False 850 = Some (Inr (frames, 112)) \<and> length frames = 142"
    by simp
  with h t s f l show ?thesis by blast
qed

section \<open>The parallel animation\<close>

lemma those_map_Some: "those (map (\<lambda>x. Some (f x)) xs) = Some (map f xs)"
  by (induction xs) simp_all

lemma collect_map_Inr:
  "\<forall>x \<in> set xs. f x = Inr (h x) \<Longrightarrow> collect (map f xs) = Inr (map h xs)"
  by (induction xs) simp_all

lemma offsets_loop_length:
  "length (fst (offsets_loop gap_cols gs st)) = length (fst st) + length gs"
  by (induction gs arbitrary: st) simp_all

lemma offsets_loop_mono:
  "0 \<le> gap_cols \<Longrightarrow> snd st \<le> snd (offsets_loop gap_cols gs st)"
proof (induction gs arbitrary: st)
  case Nil
  then show ?case by simp
next
  case (Cons g gs)
  let ?st = "(fst st @ [snd st], snd st + int (snd (shape g)) + gap_cols)"
  from Cons.prems have "snd st \<le> snd ?st" by simp
  also have "\<dots> \<le> snd (offsets_loop gap_cols gs ?st)"
    using Cons.prems by (rule Cons.IH)
  finally show ?case by simp
qed

lemma offsets_loop_total:
  assumes "0 \<le> gap_cols" and "gs \<noteq> []"
  shows "snd st + gap_cols \<le> snd (offsets_loop gap_cols gs st)"
proof -
  from assms(2) obtain g gs' where gs: "gs = g # gs'" by (cases gs) auto
  let ?st = "(fst st @ [snd st], snd st + int (snd (shape g)) + gap_cols)"
  have "snd st + gap_cols \<le> snd ?st" by simp
  also have "\<dots> \<le> snd (offsets_loop gap_cols gs' ?st)"
    using assms(1) by (rule offsets_loop_mono)
  finally show ?thesis by (simp add: gs)
qed

lemma traj_row_cols_ok:
  "2 * gap + 1 \<le> cell \<Longrightarrow> row < length g \<Longrightarrow> \<forall>j \<in> set js. j < length (g ! row) \<Longrightarrow>
   \<exists>cv'. traj_row_cols g margin cell gap co row c1 c0 js cv = Inr cv'"
proof (induction js arbitrary: cv)
  case Nil
  then show ?case by simp
next
  case (Cons j js)
  then have get: "grid_get g row j = Inr (g ! row ! j)" by (simp add: grid_get_def)
  from Cons.prems have rest: "\<forall>j \<in> set js. j < length (g ! row)" by simp
  show ?case
  proof (cases "g ! row ! j = EMPTY")
    case True
    with get Cons.IH [OF Cons.prems(1,2) rest] show ?thesis by simp
  next
    case False
    let ?color = "if g ! row ! j = 1 then c1 else c0"
    from rectangle_ok [OF Cons.prems(1)]
    obtain cv1 where "rectangle cv (margin + (co + int j) * cell + gap)
        (margin + int row * cell + gap) (margin + (co + int j) * cell + cell - gap - 1)
        (margin + int row * cell + cell - gap - 1) ?color
      = Inr cv1"
      by blast
    with get False Cons.IH [OF Cons.prems(1,2) rest, of cv1] show ?thesis
      by (simp add: Let_def)
  qed
qed

lemma traj_row_skip:
  "idx < length grids \<Longrightarrow> fst (shape (grids ! idx)) \<le> row \<Longrightarrow>
   traj_row grids col_offsets margin cell gap idx row highlight cv = Inr cv"
  by (simp add: traj_row_def Let_def)

lemma traj_row_ok:
  assumes "idx < length grids" and "idx < length col_offsets" and "rect (grids ! idx)"
    and "2 * gap + 1 \<le> cell"
  shows "\<exists>cv'. traj_row grids col_offsets margin cell gap idx row highlight cv = Inr cv'"
proof (cases "fst (shape (grids ! idx)) \<le> row")
  case True
  with assms(1) show ?thesis by (simp add: traj_row_skip)
next
  case False
  let ?g = "grids ! idx"
  from False have row: "row < length ?g" by (simp add: shape_def)
  with assms(3) have "length (?g ! row) = snd (shape ?g)"
    by (simp add: rect_def list_all_length)
  then have "\<forall>j \<in> set [0..<snd (shape ?g)]. j < length (?g ! row)" by simp
  from traj_row_cols_ok [OF assms(4) row this]
  show ?thesis using assms(1,2) False by (simp add: traj_row_def Let_def)
qed

lemma par_inner_ok:
  assumes tr: "\<And>idx row hl cv. idx < k \<Longrightarrow> \<exists>cv'. tr idx row hl cv = Inr cv'"
  shows "\<forall>idx \<in> set idxs. idx < k \<Longrightarrow> \<exists>cv'. par_inner tr r idxs cv = Inr cv'"
proof (induction idxs arbitrary: cv)
  case Nil
  then show ?case by simp
next
  case (Cons idx idxs)
  then have idx: "idx < k" by simp
  have "\<exists>cv1. (if r > 0 then tr idx (r - 1) False cv else Inr cv) = Inr cv1"
    using tr [OF idx] by (cases "r > 0") simp_all
  then obtain cv1 where cv1: "(if r > 0 then tr idx (r - 1) False cv else Inr cv) = Inr cv1" ..
  from tr [OF idx] obtain cv2 where cv2: "tr idx r True cv1 = Inr cv2" by blast
  from Cons.prems have "\<forall>idx \<in> set idxs. idx < k" by simp
  from Cons.IH [OF this] obtain cv' where "par_inner tr r idxs cv2 = Inr cv'" by blast
  moreover have "par_inner tr r (idx # idxs) cv = par_inner tr r idxs cv2"
    by (simp only: par_inner.simps cv1 cv2 sum.case)
  ultimately show ?case by simp
qed

lemma par_loop_frames:
  assumes tr: "\<And>idx row hl cv. idx < k \<Longrightarrow> \<exists>cv'. tr idx row hl cv = Inr cv'"
  shows "\<exists>cv' fr. par_loop tr k rs (cv, frames) = Inr (cv', frames @ fr) \<and>
                 length fr = length rs"
proof (induction rs arbitrary: cv frames)
  case Nil
  then show ?case by simp
next
  case (Cons r rs)
  have "\<forall>idx \<in> set [0..<k]. idx < k" by simp
  from par_inner_ok [of k tr, OF tr this]
  obtain cv1 where cv1: "par_inner tr r [0..<k] cv = Inr cv1" by blast
  from Cons.IH [of cv1 "frames @ [cv1]"]
  obtain cv' fr where rest: "par_loop tr k rs (cv1, frames @ [cv1])
      = Inr (cv', (frames @ [cv1]) @ fr)" and fr: "length fr = length rs"
    by blast
  have "par_loop tr k (r # rs) (cv, frames) = par_loop tr k rs (cv1, frames @ [cv1])"
    by (simp only: par_loop.simps fst_conv snd_conv cv1 sum.case)
  with rest fr have "par_loop tr k (r # rs) (cv, frames) = Inr (cv', frames @ (cv1 # fr)) \<and>
      length (cv1 # fr) = length (r # rs)"
    by simp
  then show ?case by blast
qed

lemma par_settle_ok:
  assumes tr: "\<And>idx row hl cv. idx < length grids \<Longrightarrow> \<exists>cv'. tr idx row hl cv = Inr cv'"
  shows "\<forall>idx \<in> set idxs. idx < length grids \<Longrightarrow>
    \<exists>cv'. par_settle tr grids idxs cv = Inr cv'"
proof (induction idxs arbitrary: cv)
  case Nil
  then show ?case by simp
next
  case (Cons idx idxs)
  then have idx: "idx < length grids" by simp
  from tr [OF idx]
  obtain cv1 where cv1: "tr idx (fst (shape (grids ! idx)) - 1) False cv = Inr cv1" by blast
  from Cons.prems have "\<forall>idx \<in> set idxs. idx < length grids" by simp
  from Cons.IH [OF this] obtain cv' where "par_settle tr grids idxs cv1 = Inr cv'" by blast
  with idx cv1 show ?case by simp
qed

lemma par_tail_ok:
  assumes "\<forall>g \<in> set grids. rect g" and "length col_offsets = length grids"
    and "2 * gap + 1 \<le> cell"
  shows "\<exists>fr final. par_tail (traj_row grids col_offsets margin cell gap) grids max_rows cv0
            = Inr (fr @ replicate 30 final) \<and>
          length fr = max_rows"
proof -
  let ?tr = "traj_row grids col_offsets margin cell gap"
  have tr: "\<exists>cv'. ?tr idx row hl cv = Inr cv'" if "idx < length grids" for idx row hl cv
    using that assms by (intro traj_row_ok) simp_all
  from par_loop_frames [of "length grids" ?tr, OF tr, of "[0..<max_rows]" cv0 "[]"]
  obtain cv fr where loop:
    "par_loop ?tr (length grids) [0..<max_rows] (cv0, []) = Inr (cv, fr)"
    and fr: "length fr = max_rows"
    by auto
  have "\<forall>idx \<in> set [0..<length grids]. idx < length grids" by simp
  from par_settle_ok [of grids ?tr, OF tr this]
  obtain final where final: "par_settle ?tr grids [0..<length grids] cv = Inr final" by blast
  have "par_tail ?tr grids max_rows cv0 = Inr (fr @ replicate 30 final)"
    by (simp only: par_tail_def loop final sum.case prod.case)
  with fr show ?thesis by blast
qed

lemma parallel_gif_par_tail:
  "parallel_gif numbers accelerated cell gap_cols =
     (case those (map (\<lambda>n. trajectory n accelerated) numbers) of
        None \<Rightarrow> None
      | Some trajs \<Rightarrow> Some
          (case collect (map binary_grid trajs) of
             Inl e \<Rightarrow> Inl e
           | Inr grids \<Rightarrow>
               (case map (\<lambda>g. fst (shape g)) grids of
                  [] \<Rightarrow> Inl ValueError
                | r # rs \<Rightarrow>
                    (let max_rows = fold max rs r;
                         offs = offsets_loop gap_cols grids ([], 0);
                         col_offsets = fst offs;
                         off = snd offs;
                         total_cols = off - gap_cols;
                         gap = (if cell \<ge> 8 then 1 else 0);
                         margin = 10;
                         w = total_cols * cell + 2 * margin;
                         h = int max_rows * cell + 2 * margin
                     in case new_image w h BG of
                          Inl e \<Rightarrow> Inl e
                        | Inr canvas \<Rightarrow>
                            (let tr = traj_row grids col_offsets margin cell gap
                             in par_tail tr grids max_rows canvas)))))"
  by (simp only: parallel_gif_def par_tail_def)

text \<open>
  Where \<open>parallel_gif\<close> raises: on an empty list of starting values \<open>max\<close> raises before
  any frame is made; with a cell size of 0 the first rectangle has \<open>x1 < x0\<close>; with a
  negative column gap the canvas width can be negative.
\<close>

lemma parallel_gif_empty: "parallel_gif [] accelerated cell gap_cols = Some (Inl ValueError)"
  by (simp add: parallel_gif_def)

lemma binary_grid_one: "binary_grid [1] = Inr [[1]]"
  by (simp add: binary_grid_def bits_loop_1 bit_length_1 grid_set_def EMPTY_def Let_def)

lemma parallel_gif_cell_zero: "parallel_gif [1] True 0 2 = Some (Inl ValueError)"
proof -
  have cv: "new_image 20 20 BG = Inr (replicate (nat 20) (replicate (nat 20) BG))"
    by (simp add: new_image_def)
  have paint: "traj_row [[[1]]] [0] 10 0 0 0 0 True c = Inl ValueError" for c
    by (simp add: traj_row_def shape_def grid_get_def EMPTY_def Let_def rectangle_raises)
  show ?thesis
    by (simp add: parallel_gif_def trajectory_def binary_grid_one shape_def Let_def cv paint)
qed

lemma parallel_gif_negative_gap: "parallel_gif [1, 1] True 12 (- 5) = Some (Inl ValueError)"
  by (simp add: parallel_gif_def trajectory_def binary_grid_one shape_def Let_def
      new_image_raises)

text \<open>
  Claim C8, as the code has it. In \<open>parallel_gif\<close>, painting row \<open>row\<close> of a trajectory
  whose grid has no such row leaves the canvas as it is and raises nothing, for every list
  of grids; and for every non-empty list of starting values \<open>\<ge> 1\<close>, with a cell size
  \<open>\<ge> 1\<close> and a column gap \<open>\<ge> 0\<close> (the defaults are 12 and 2), the function returns, raises
  nothing, and its frame list is one frame per time step, as many as the longest
  trajectory has elements, followed by the 30 held copies of the final frame.
\<close>

theorem parallel_gif_frames:
  "(idx < length grids \<and> fst (shape (grids ! idx)) \<le> row \<longrightarrow>
      traj_row grids col_offsets margin cell gap idx row highlight cv = Inr cv) \<and>
   (numbers \<noteq> [] \<and> (\<forall>n \<in> set numbers. 1 \<le> n) \<and> 1 \<le> csize \<and> 0 \<le> gap_cols \<longrightarrow>
      (\<exists>trajs loop_frames final frames.
         those (map (\<lambda>n. trajectory n accelerated) numbers) = Some trajs \<and>
         parallel_gif numbers accelerated csize gap_cols = Some (Inr frames) \<and>
         frames = loop_frames @ replicate 30 final \<and>
         length loop_frames = Max (set (map length trajs)) \<and>
         length frames = Max (set (map length trajs)) + 30))"
proof (intro conjI impI)
  assume "idx < length grids \<and> fst (shape (grids ! idx)) \<le> row"
  then show "traj_row grids col_offsets margin cell gap idx row highlight cv = Inr cv"
    by (simp add: traj_row_skip)
next
  assume a: "numbers \<noteq> [] \<and> (\<forall>n \<in> set numbers. 1 \<le> n) \<and> 1 \<le> csize \<and> 0 \<le> gap_cols"
  let ?trajs = "map (\<lambda>n. traj_of n accelerated) numbers"
  let ?grids = "map grid_of ?trajs"
  have th: "those (map (\<lambda>n. trajectory n accelerated) numbers) = Some ?trajs"
    by (simp only: trajectory_traj_of those_map_Some)
  have good: "t \<noteq> [] \<and> (\<forall>v \<in> set t. 0 < v)" if "t \<in> set ?trajs" for t
    using that a traj_of_nonempty traj_of_pos by auto
  have "\<forall>t \<in> set ?trajs. binary_grid t = Inr (grid_of t)"
    using good binary_grid_grid_of by blast
  then have co: "collect (map binary_grid ?trajs) = Inr ?grids"
    by (rule collect_map_Inr)
  have hs: "map (\<lambda>g. fst (shape g)) ?grids = map length ?trajs"
    by (simp add: shape_def grid_of_def)
  from a obtain r rs where rrs: "map length ?trajs = r # rs"
    by (cases numbers) auto
  have mx: "fold max rs r = Max (set (map length ?trajs))"
    unfolding rrs by (rule Max.set_eq_fold [symmetric])
  have rc: "\<forall>g \<in> set ?grids. rect g"
  proof
    fix g assume "g \<in> set ?grids"
    then obtain t where t: "t \<in> set ?trajs" and g: "g = grid_of t" by auto
    from good [OF t] have "t \<noteq> []" "\<forall>v \<in> set t. 0 < v" by simp_all
    then show "rect g" unfolding g by (rule rect_grid_of)
  qed
  let ?offs = "offsets_loop gap_cols ?grids ([], 0)"
  have lo: "length (fst ?offs) = length ?grids"
    by (simp add: offsets_loop_length)
  let ?gap = "if csize \<ge> 8 then 1 else 0 :: int"
  have geo: "2 * ?gap + 1 \<le> csize" using a by auto
  from a have gap0: "0 \<le> gap_cols" and c0: "0 \<le> csize" and gne: "?grids \<noteq> []" by simp_all
  from offsets_loop_total [OF gap0 gne, of "([], 0)"]
  have "0 \<le> snd ?offs - gap_cols" by simp
  then have "0 \<le> (snd ?offs - gap_cols) * csize" "0 \<le> int (fold max rs r) * csize"
    using c0 by (simp_all only: mult_nonneg_nonneg of_nat_0_le_iff)
  then have "0 \<le> (snd ?offs - gap_cols) * csize + 2 * 10"
    "0 \<le> int (fold max rs r) * csize + 2 * 10"
    by linarith+
  from new_image_ok [OF this]
  obtain cv0 where ni: "new_image ((snd ?offs - gap_cols) * csize + 2 * 10)
     (int (fold max rs r) * csize + 2 * 10) BG = Inr cv0"
    by blast
  have eq: "parallel_gif numbers accelerated csize gap_cols =
      Some (par_tail (traj_row ?grids (fst ?offs) 10 csize ?gap) ?grids (fold max rs r) cv0)"
    by (simp only: parallel_gif_par_tail th option.case co sum.case hs rrs list.case Let_def ni)
  from par_tail_ok [OF rc lo geo]
  obtain fr final where fr:
    "par_tail (traj_row ?grids (fst ?offs) 10 csize ?gap) ?grids (fold max rs r) cv0
       = Inr (fr @ replicate 30 final)"
    "length fr = fold max rs r"
    by blast
  have p: "parallel_gif numbers accelerated csize gap_cols = Some (Inr (fr @ replicate 30 final))"
    by (simp only: eq fr(1))
  have l: "length fr = Max (set (map length ?trajs))"
    by (simp only: fr(2) mx)
  then have l': "length (fr @ replicate 30 final) = Max (set (map length ?trajs)) + 30"
    by simp
  from th p l l'
  show "\<exists>trajs loop_frames final frames.
         those (map (\<lambda>n. trajectory n accelerated) numbers) = Some trajs \<and>
         parallel_gif numbers accelerated csize gap_cols = Some (Inr frames) \<and>
         frames = loop_frames @ replicate 30 final \<and>
         length loop_frames = Max (set (map length trajs)) \<and>
         length frames = Max (set (map length trajs)) + 30"
    by blast
qed

text \<open>
  On the one-pixel canvas \<open>[[BG]]\<close>, with cells of one pixel, painting row 0 of the grid
  \<open>[[1]]\<close> changes the pixel; row 1, which the grid does not have, is skipped.
\<close>

lemma traj_row_paints:
  "traj_row [[[1]]] [0] 0 1 0 0 0 True [[(8, 8, 16)]] = Inr [[(255, 115, 80)]]"
  by (simp add: traj_row_def shape_def grid_get_def EMPTY_def Let_def rectangle_def
      PAL_MULTI_def bright_def enumerate_eq_zip)

theorem parallel_gif_frames_witness:
  "(0::nat) < length [[[1::int]]] \<and> fst (shape ([[[1]]] ! 0)) \<le> 1 \<and>
   traj_row [[[1]]] [0] 0 1 0 0 1 True [[(8, 8, 16)]] = Inr [[(8, 8, 16)]] \<and>
   traj_row [[[1]]] [0] 0 1 0 0 0 True [[(8, 8, 16)]] = Inr [[(255, 115, 80)]] \<and>
   [7, 27, 97] \<noteq> ([] :: int list) \<and> list_all (\<lambda>n. 1 \<le> n) [7, 27, 97 :: int] \<and>
   (1::int) \<le> 12 \<and> (0::int) \<le> 2 \<and>
   (\<exists>trajs loop_frames final frames.
      those (map (\<lambda>n. trajectory n True) [7, 27, 97]) = Some trajs \<and>
      parallel_gif [7, 27, 97] True 12 2 = Some (Inr frames) \<and>
      frames = loop_frames @ replicate 30 final \<and>
      length loop_frames = Max (set (map length trajs)) \<and>
      length frames = Max (set (map length trajs)) + 30) \<and>
   (\<exists>frames. parallel_gif [7, 27, 97] True 12 2 = Some (Inr frames) \<and> length frames = 74)"
proof -
  note inst = parallel_gif_frames [where idx = 0 and grids = "[[[1]]]" and row = 1
      and col_offsets = "[0]" and margin = 0 and cell = 1 and gap = 0 and highlight = True
      and cv = "[[(8, 8, 16)]]" and numbers = "[7, 27, 97]" and accelerated = True
      and csize = 12 and gap_cols = 2]
  have a: "(0::nat) < length [[[1::int]]] \<and> fst (shape ([[[1]]] ! 0)) \<le> 1"
    by (simp add: shape_def)
  have b: "[7, 27, 97] \<noteq> ([] :: int list) \<and> (\<forall>n \<in> set [7, 27, 97 :: int]. 1 \<le> n) \<and>
      (1::int) \<le> 12 \<and> (0::int) \<le> 2"
    by simp
  from inst a
  have skip: "traj_row [[[1]]] [0] 0 1 0 0 1 True [[(8, 8, 16)]] = Inr [[(8, 8, 16)]]"
    by blast
  from inst b obtain trajs loop_frames final frames
    where t: "those (map (\<lambda>n. trajectory n True) [7, 27, 97]) = Some trajs"
    and p: "parallel_gif [7, 27, 97] True 12 2 = Some (Inr frames)"
    and f: "frames = loop_frames @ replicate 30 final"
      "length loop_frames = Max (set (map length trajs))"
    and l: "length frames = Max (set (map length trajs)) + 30"
    by blast
  from t have "map length trajs = [6, 42, 44]"
    using run_t3_7 run_t3_27 run_t3_97
    by (auto simp: trajectory_run stepf_def simp del: run.simps)
  with l have "length frames = 74" by simp
  with a b skip traj_row_paints t p f l show ?thesis by auto
qed

text \<open>
  Claim C8 as stated (for every list of starting values) fails on the empty list: \<open>max\<close>
  raises \<open>ValueError\<close> and no frame is made.
\<close>

theorem parallel_gif_empty_counterexample:
  "parallel_gif [] True 12 2 = Some (Inl ValueError)"
  by (rule parallel_gif_empty)

end
